theory Spec2Isabelle
  imports Complex_Main "HOL-Library.Word" "HOL-Library.Multiset"
begin

unbundle bit_operations_syntax

section \<open>JavaScript numbers\<close>

text \<open>
  A JavaScript number is an IEEE 754 double. The model keeps the finite values as reals
  and has the three special values explicitly. Finite results are kept exact (neither the
  rounding to 53 bits of precision nor underflow is modelled, except in \<open>toDouble\<close>
  below, where the source converts a digit string of arbitrary length, and the two zeros are
  one); a result whose magnitude reaches
  the overflow threshold of round-to-nearest, \<open>2^1024 - 2^970\<close>, becomes an infinity,
  as IEEE 754 prescribes.
\<close>

datatype jsnum = Num real | PInf | NInf | NaN

definition overflowThreshold :: real where
  "overflowThreshold = 2 ^ 1024 - 2 ^ 970"

definition fromReal :: "real \<Rightarrow> jsnum" where
  "fromReal x =
     (if overflowThreshold \<le> x then PInf
      else if x \<le> - overflowThreshold then NInf
      else Num x)"

fun isFinite :: "jsnum \<Rightarrow> bool" where
  "isFinite (Num x) = True"
| "isFinite _ = False"

text \<open>The comparison \<open>a < b\<close>: false whenever an operand is NaN.\<close>

fun js_less :: "jsnum \<Rightarrow> jsnum \<Rightarrow> bool" where
  "js_less (Num x) (Num y) = (x < y)"
| "js_less (Num x) PInf = True"
| "js_less NInf (Num y) = True"
| "js_less NInf PInf = True"
| "js_less _ _ = False"

text \<open>
  \<open>ToInt32\<close>, applied by the operators \<open>>>\<close> and \<open>&\<close>: NaN and the infinities give 0,
  a finite number is truncated towards zero and wrapped into the signed 32-bit range.
\<close>

definition truncToInt :: "real \<Rightarrow> int" where
  "truncToInt x = (if 0 \<le> x then \<lfloor>x\<rfloor> else \<lceil>x\<rceil>)"

fun toInt32 :: "jsnum \<Rightarrow> int" where
  "toInt32 (Num x) = signed_take_bit 31 (truncToInt x)"
| "toInt32 _ = 0"

section \<open>Hex colour strings (image\_worker.js, lines 15--29)\<close>

text \<open>
  Strings are lists of 8-bit characters; the colour strings of the program are ASCII.
\<close>

definition hexDigitChar :: "nat \<Rightarrow> char" where
  "hexDigitChar d = ''0123456789abcdefghijklmnopqrstuvwxyz'' ! d"

definition digitValue :: "char \<Rightarrow> nat option" where
  "digitValue c =
     (let k = of_char c :: nat in
      if 48 \<le> k \<and> k \<le> 57 then Some (k - 48)
      else if 97 \<le> k \<and> k \<le> 122 then Some (k - 87)
      else if 65 \<le> k \<and> k \<le> 90 then Some (k - 55)
      else None)"

definition isRadixDigit :: "nat \<Rightarrow> char \<Rightarrow> bool" where
  "isRadixDigit radix c = (case digitValue c of None \<Rightarrow> False | Some d \<Rightarrow> d < radix)"

definition isWhiteSpace :: "char \<Rightarrow> bool" where
  "isWhiteSpace c = (of_char c \<in> {9, 10, 11, 12, 13, 32 :: nat})"

fun bitLength :: "nat \<Rightarrow> nat" where
  "bitLength n = (if n = 0 then 0 else Suc (bitLength (n div 2)))"

text \<open>
  The double nearest to a natural number (ties to even): exact below \<open>2^53\<close>, infinite
  from the overflow threshold on.
\<close>

definition toDouble :: "nat \<Rightarrow> jsnum" where
  "toDouble n =
     (if n < 2 ^ 53 then Num (real n)
      else
        let e = bitLength n - 53;
            q = n div 2 ^ e;
            r = n mod 2 ^ e;
            h = 2 ^ (e - 1);
            q' = (if h < r \<or> (r = h \<and> odd q) then q + 1 else q)
        in if 2 ^ 1024 \<le> q' * 2 ^ e then PInf else Num (real (q' * 2 ^ e)))"

fun jsNegate :: "jsnum \<Rightarrow> jsnum" where
  "jsNegate (Num x) = Num (- x)"
| "jsNegate PInf = NInf"
| "jsNegate NInf = PInf"
| "jsNegate NaN = NaN"

definition digitsToNat :: "nat \<Rightarrow> string \<Rightarrow> nat" where
  "digitsToNat radix ds = foldl (\<lambda>acc c. acc * radix + the (digitValue c)) 0 ds"

text \<open>
  \<open>parseInt(s, radix)\<close> for the radices the program uses (10 and 16): leading white
  space is skipped, a sign is read, for radix 16 a prefix \<open>0x\<close> or \<open>0X\<close> is skipped,
  and the longest prefix of digits of the radix is the number; without a digit the result
  is NaN.
\<close>

definition parseInt :: "string \<Rightarrow> nat \<Rightarrow> jsnum" where
  "parseInt s radix =
     (let s1 = dropWhile isWhiteSpace s;
          negative = (s1 \<noteq> [] \<and> hd s1 = CHR ''-'');
          s2 = (if s1 \<noteq> [] \<and> (hd s1 = CHR ''-'' \<or> hd s1 = CHR ''+'') then tl s1 else s1);
          s3 = (if radix = 16 \<and> (take 2 s2 = ''0x'' \<or> take 2 s2 = ''0X'') then drop 2 s2 else s2);
          ds = takeWhile (isRadixDigit radix) s3
      in if ds = [] then NaN
         else let v = toDouble (digitsToNat radix ds)
              in if negative then jsNegate v else v)"

text \<open>
  \<open>hexToRgb\<close>. \<open>hex.slice(1)\<close> drops the first character; \<open>v >> 16\<close> is the
  arithmetic shift of the 32-bit value and \<open>& 255\<close> keeps its low byte.
\<close>

type_synonym rgb = "int \<times> int \<times> int"

definition hexToRgb :: "string \<Rightarrow> rgb" where
  "hexToRgb hex =
     (let v = toInt32 (parseInt (drop 1 hex) 16)
      in (drop_bit 16 v AND 255, drop_bit 8 v AND 255, v AND 255))"

text \<open>
  \<open>rgbToHex\<close>. Every call site passes integers (bytes of the pixel buffer, or
  \<open>Math.floor\<close> of a random number), on which \<open>Math.round\<close> is the identity.
  \<open>toString(16)\<close> of a negative integer is the minus sign followed by the digits of
  its magnitude.
\<close>

fun toHexDigits :: "nat \<Rightarrow> string" where
  "toHexDigits n =
     (if n < 16 then [hexDigitChar n] else toHexDigits (n div 16) @ [hexDigitChar (n mod 16)])"

definition toString16 :: "int \<Rightarrow> string" where
  "toString16 v = (if v < 0 then CHR ''-'' # toHexDigits (nat (- v)) else toHexDigits (nat v))"

definition padStart2 :: "string \<Rightarrow> string" where
  "padStart2 s = replicate (2 - length s) CHR ''0'' @ s"

definition rgbToHex :: "int \<Rightarrow> int \<Rightarrow> int \<Rightarrow> string" where
  "rgbToHex r g b = CHR ''#'' # concat (map (\<lambda>v. padStart2 (toString16 v)) [r, g, b])"

section \<open>Pixel buffers and colour distance (image\_worker.js, lines 48--54)\<close>

text \<open>
  The pixel buffer is a \<open>Uint8ClampedArray\<close> of interleaved RGBA bytes. The model groups
  it into pixels: element \<open>j\<close> of the list stands for the bytes \<open>4j .. 4j+3\<close>, so
  \<open>imageData.length / 4\<close> is the length of the list, and a loop \<open>for (i = 0; i <
  data.length; i += 4)\<close> is a traversal of the list.
\<close>

type_synonym byte = "8 word"
type_synonym pixel = "byte \<times> byte \<times> byte \<times> byte"

definition pixelColor :: "pixel \<Rightarrow> rgb" where
  "pixelColor p = (case p of (r, g, b, a) \<Rightarrow> (uint r, uint g, uint b))"

definition colorDistance :: "rgb \<Rightarrow> rgb \<Rightarrow> int" where
  "colorDistance c1 c2 =
     (case c1 of (r1, g1, b1) \<Rightarrow> case c2 of (r2, g2, b2) \<Rightarrow>
        let rDiff = r1 - r2; gDiff = g1 - g2; bDiff = b1 - b2
        in rDiff * rDiff + gDiff * gDiff + bDiff * bDiff)"

text \<open>
  The scan that the source writes three times (lines 350--364, 382--390 and 807--815):
  starting from \<open>minDistance = Infinity\<close> and index 0, every element whose distance is
  strictly less than the minimum so far replaces it.
\<close>

fun closestScan :: "('a \<Rightarrow> jsnum) \<Rightarrow> 'a list \<Rightarrow> nat \<Rightarrow> jsnum \<times> nat \<Rightarrow> jsnum \<times> nat" where
  "closestScan distanceTo [] k st = st"
| "closestScan distanceTo (c # cs) k (minDistance, bandIndex) =
     (let distance = distanceTo c
      in if js_less distance minDistance then closestScan distanceTo cs (Suc k) (distance, k)
         else closestScan distanceTo cs (Suc k) (minDistance, bandIndex))"

definition closestIndex :: "('a \<Rightarrow> jsnum) \<Rightarrow> 'a list \<Rightarrow> nat" where
  "closestIndex distanceTo cs = snd (closestScan distanceTo cs 0 (PInf, 0))"

definition closestBand :: "rgb \<Rightarrow> rgb list \<Rightarrow> nat" where
  "closestBand px paletteColors =
     closestIndex (\<lambda>c. Num (real_of_int (colorDistance px c))) paletteColors"

definition createBandMap :: "pixel list \<Rightarrow> rgb list \<Rightarrow> nat list" where
  "createBandMap imageData paletteColors =
     map (\<lambda>p. closestBand (pixelColor p) paletteColors) imageData"

section \<open>processImage (image\_worker.js, lines 778--875)\<close>

datatype error = TypeError | RangeError

text \<open>
  The fields of \<open>appState\<close> and \<open>domElements\<close> that \<open>processImage\<close> reads. A palette
  that is \<open>null\<close> or \<open>undefined\<close> is \<open>None\<close>. \<open>currentLayer\<close> is the value of
  \<open>parseInt(layerSlider.value, 10)\<close>, an integer or NaN (\<open>None\<close>): the slider is a range
  input. \<open>singleLayerToggle\<close> is \<open>None\<close> when the toggle is absent, and otherwise holds
  its \<open>checked\<close> flag.
\<close>

record appState =
  imageData :: "pixel list"
  suggestedPalette :: "string list option"
  currentPalette :: "string list option"
  width :: nat
  height :: nat

record domElements =
  currentLayer :: "int option"
  singleLayerToggle :: "bool option"

text \<open>
  \<open>hexToRgb(renderPalette[k])\<close>: an index beyond the palette reads \<open>undefined\<close>, and
  \<open>hexToRgb\<close> raises a TypeError on it (\<open>undefined.slice\<close>).
\<close>

definition renderColor :: "string list \<Rightarrow> nat \<Rightarrow> error + rgb" where
  "renderColor renderPalette k =
     (if k < length renderPalette then Inr (hexToRgb (renderPalette ! k)) else Inl TypeError)"

definition opaque :: "rgb \<Rightarrow> pixel" where
  "opaque c = (case c of (r, g, b) \<Rightarrow> (word_of_int r, word_of_int g, word_of_int b, 255))"

text \<open>
  One pass over the preview (lines 842--850 and 855--863): pixel \<open>j\<close> is repainted when
  \<open>bandMap[j] === layer\<close>; the colour is looked up only then.
\<close>

fun drawLayer :: "string list \<Rightarrow> nat list \<Rightarrow> nat \<Rightarrow> nat \<Rightarrow> pixel list \<Rightarrow> error + pixel list" where
  "drawLayer renderPalette bandMap layer j [] = Inr []"
| "drawLayer renderPalette bandMap layer j (p # ps) =
     (if j < length bandMap \<and> bandMap ! j = layer then
        (case renderColor renderPalette layer of
           Inl e \<Rightarrow> Inl e
         | Inr c \<Rightarrow>
             (case drawLayer renderPalette bandMap layer (Suc j) ps of
                Inl e \<Rightarrow> Inl e
              | Inr ps' \<Rightarrow> Inr (opaque c # ps')))
      else
        (case drawLayer renderPalette bandMap layer (Suc j) ps of
           Inl e \<Rightarrow> Inl e
         | Inr ps' \<Rightarrow> Inr (p # ps')))"

fun drawLayers :: "string list \<Rightarrow> nat list \<Rightarrow> nat list \<Rightarrow> pixel list \<Rightarrow> error + pixel list" where
  "drawLayers renderPalette bandMap [] previewData = Inr previewData"
| "drawLayers renderPalette bandMap (layer # layers) previewData =
     (case drawLayer renderPalette bandMap layer 0 previewData of
        Inl e \<Rightarrow> Inl e
      | Inr previewData' \<Rightarrow> drawLayers renderPalette bandMap layers previewData')"

text \<open>
  The result is \<open>Inr None\<close> for the \<open>null\<close> returned when the palette is not ready, and
  \<open>Inr (Some (bandMap, previewData))\<close> otherwise. The render palette
  \<open>currentPalette || suggestedPalette\<close> is read only after the check that the structural
  palette is not empty, where \<open>suggestedPalette\<close> is that palette.
\<close>

definition processImage :: "appState \<Rightarrow> domElements \<Rightarrow> error + (nat list \<times> pixel list) option" where
  "processImage st els =
     (let palette = (case suggestedPalette st of None \<Rightarrow> [] | Some p \<Rightarrow> p);
          renderPalette = (case currentPalette st of None \<Rightarrow> palette | Some p \<Rightarrow> p);
          paletteColors = map hexToRgb palette
      in if paletteColors = [] then Inr None
         else
           let bandMap = createBandMap (imageData st) paletteColors
           in case renderColor renderPalette 0 of
                Inl e \<Rightarrow> Inl e
              | Inr baseColor \<Rightarrow>
                  let previewData = replicate (width st * height st) (opaque baseColor);
                      isSingleLayerMode = (case singleLayerToggle els of None \<Rightarrow> False | Some c \<Rightarrow> c);
                      layers =
                        (case currentLayer els of
                           None \<Rightarrow> []
                         | Some l \<Rightarrow>
                             if isSingleLayerMode then (if 0 < l then [nat l] else [])
                             else map nat [1..l])
                  in case drawLayers renderPalette bandMap layers previewData of
                       Inl e \<Rightarrow> Inl e
                     | Inr previewData' \<Rightarrow> Inr (Some (bandMap, previewData')))"

section \<open>Palette selection (image\_worker.js, lines 233--415)\<close>

text \<open>
  The floating-point computations of the palette selector are parameters of the model, so
  that what is proved holds for whatever doubles the engine computes (\<open>Math.pow\<close> and
  the accumulated rounding are implementation-dependent):
  \<^item> \<open>finalImpactScore data width height pixelIndex\<close> is the score of a sampled pixel
    (lines 238--267: Sobel edge map, saturation, centre-biased saliency), a finite number;
  \<^item> \<open>addScore\<close> is the addition of doubles of \<open>impactScore += finalImpactScore\<close>;
  \<^item> \<open>deltaE c1 c2\<close> is \<open>calculateDeltaE(rgbToLab(c1), rgbToLab(c2))\<close>;
  \<^item> \<open>backgroundDeltaE data width height c\<close> is the Delta-E between \<open>c\<close> and the
    colour that \<open>detectBackgroundColor(data, width, height)\<close> returns (lines 347--358).
\<close>

record floatOps =
  finalImpactScore :: "pixel list \<Rightarrow> nat \<Rightarrow> nat \<Rightarrow> nat \<Rightarrow> real"
  addScore :: "real \<Rightarrow> real \<Rightarrow> real"
  deltaE :: "rgb \<Rightarrow> rgb \<Rightarrow> jsnum"
  backgroundDeltaE :: "pixel list \<Rightarrow> nat \<Rightarrow> nat \<Rightarrow> rgb \<Rightarrow> jsnum"

text \<open>
  The histogram is a \<open>Map\<close> from the key \<open>`${r},${g},${b}`\<close> to the accumulated score
  and the pixel count; a \<open>Map\<close> iterates in the order of first insertion. The model keeps
  the entries in that order, with the colour triple itself as the key (the string is a
  one-to-one encoding of it, decoded again by \<open>split(',').map(Number)\<close>).
\<close>

type_synonym candidate = "rgb \<times> real \<times> nat"

fun histogramAdd :: "(real \<Rightarrow> real \<Rightarrow> real) \<Rightarrow> rgb \<Rightarrow> real \<Rightarrow> candidate list \<Rightarrow> candidate list" where
  "histogramAdd add colorKey score [] = [(colorKey, score, 1)]"
| "histogramAdd add colorKey score ((k, impactScore, pixelCount) # h) =
     (if k = colorKey then (k, add impactScore score, pixelCount + 1) # h
      else (k, impactScore, pixelCount) # histogramAdd add colorKey score h)"

text \<open>\<open>for (let i = 0; i < data.length; i += 16)\<close>: every fourth pixel.\<close>

definition sampledIndices :: "nat \<Rightarrow> nat list" where
  "sampledIndices n = filter (\<lambda>pixelIndex. pixelIndex mod 4 = 0) [0..<n]"

definition colorHistogram :: "floatOps \<Rightarrow> pixel list \<Rightarrow> nat \<Rightarrow> nat \<Rightarrow> candidate list" where
  "colorHistogram ops data w h =
     foldl (\<lambda>hist pixelIndex.
              histogramAdd (addScore ops) (pixelColor (data ! pixelIndex))
                (finalImpactScore ops data w h pixelIndex) hist)
       [] (sampledIndices (length data))"

subsection \<open>Farthest-point selection (lines 306--340)\<close>

text \<open>Lines 321--329: the minimum distance from a candidate to the current palette.\<close>

fun minDistanceTo :: "('a \<Rightarrow> 'a \<Rightarrow> jsnum) \<Rightarrow> 'a \<Rightarrow> 'a list \<Rightarrow> jsnum \<Rightarrow> jsnum" where
  "minDistanceTo d candidate [] minDistanceToCurrentPalette = minDistanceToCurrentPalette"
| "minDistanceTo d candidate (paletteColor # rest) minDistanceToCurrentPalette =
     (let distance = d candidate paletteColor
      in minDistanceTo d candidate rest
           (if js_less distance minDistanceToCurrentPalette then distance
            else minDistanceToCurrentPalette))"

text \<open>Lines 319--336: the candidate whose minimum distance is largest, the first one on ties.\<close>

fun bestCandidate :: "('a \<Rightarrow> 'a \<Rightarrow> jsnum) \<Rightarrow> 'a list \<Rightarrow> 'a list \<Rightarrow> nat \<Rightarrow> jsnum \<times> nat \<Rightarrow> jsnum \<times> nat" where
  "bestCandidate d finalPalette [] i st = st"
| "bestCandidate d finalPalette (candidate # rest) i (maxMinDistance, bestCandidateIndex) =
     (let m = minDistanceTo d candidate finalPalette PInf
      in if js_less maxMinDistance m then bestCandidate d finalPalette rest (Suc i) (m, i)
         else bestCandidate d finalPalette rest (Suc i) (maxMinDistance, bestCandidateIndex))"

definition bestCandidateIndex :: "('a \<Rightarrow> 'a \<Rightarrow> jsnum) \<Rightarrow> 'a list \<Rightarrow> 'a list \<Rightarrow> nat" where
  "bestCandidateIndex d finalPalette remainingCandidates =
     snd (bestCandidate d finalPalette remainingCandidates 0 (Num (- 1), 0))"

text \<open>
  The loop of lines 314--340; \<open>splice(bestCandidateIndex, 1)\<close> removes the chosen
  candidate, which is pushed onto the palette.
\<close>

function selectionLoop :: "('a \<Rightarrow> 'a \<Rightarrow> jsnum) \<Rightarrow> nat \<Rightarrow> 'a list \<Rightarrow> 'a list \<Rightarrow> 'a list" where
  "selectionLoop d numColors finalPalette remainingCandidates =
     (if length finalPalette < numColors \<and> remainingCandidates \<noteq> [] then
        let i = bestCandidateIndex d finalPalette remainingCandidates
        in selectionLoop d numColors (finalPalette @ [remainingCandidates ! i])
             (take i remainingCandidates @ drop (Suc i) remainingCandidates)
      else finalPalette)"
  by pat_completeness auto
termination
  by (relation "measure (\<lambda>(d, numColors, finalPalette, remainingCandidates).
                  numColors - length finalPalette)") auto

declare selectionLoop.simps [simp del]

text \<open>
  Lines 307--340. The seed is \<open>remainingCandidates.shift()\<close>, the candidate of the highest
  impact. On an empty pool \<open>shift\<close> gives \<open>undefined\<close>, on which line 343 raises a
  TypeError: \<open>None\<close>. (\<open>getImpactfulColors\<close> runs the selection only on a pool of more
  than \<open>numColors\<close> candidates.)
\<close>

definition farthestPointSelection :: "('a \<Rightarrow> 'a \<Rightarrow> jsnum) \<Rightarrow> nat \<Rightarrow> 'a list \<Rightarrow> 'a list option" where
  "farthestPointSelection d numColors candidates =
     (case candidates of
        [] \<Rightarrow> None
      | seed # remainingCandidates \<Rightarrow> Some (selectionLoop d numColors [seed] remainingCandidates))"

subsection \<open>Ordering of the palette (lines 343--414)\<close>

text \<open>Lines 366--371: \<open>splice(closestColorIndex, 1)\<close>, then \<open>unshift\<close>.\<close>

definition moveToFront :: "nat \<Rightarrow> 'a list \<Rightarrow> 'a list" where
  "moveToFront closestColorIndex xs =
     (if 0 < closestColorIndex
      then xs ! closestColorIndex # (take closestColorIndex xs @ drop (Suc closestColorIndex) xs)
      else xs)"

text \<open>\<open>analyzeColorUsage\<close> (lines 426--436): the number of pixels of each band.\<close>

definition analyzeColorUsage :: "nat list \<Rightarrow> nat \<Rightarrow> nat" where
  "analyzeColorUsage bandMap colorIndex = count_list bandMap colorIndex"

text \<open>
  Lines 398--412. \<open>finalPaletteRGB.indexOf(a)\<close> finds the colour array \<open>a\<close> by identity,
  that is, its position; the model sorts the detail colours together with their positions.
  \<open>Array.prototype.sort\<close> is stable, and so is \<open>sort_key\<close>.
\<close>

definition thinFeatureOrder :: "(nat \<Rightarrow> nat) \<Rightarrow> rgb list \<Rightarrow> rgb list" where
  "thinFeatureOrder colorUsage finalPaletteRGB =
     (case finalPaletteRGB of
        [] \<Rightarrow> []
      | baseLayer # detailColors \<Rightarrow>
          baseLayer # map snd (sort_key (\<lambda>(aIndex, a). colorUsage aIndex)
                                 (zip [1..<Suc (length detailColors)] detailColors)))"

text \<open>
  \<open>getImpactfulColors\<close>. The number of colours is a natural number (the band count).
  The comparator \<open>b.impactScore - a.impactScore\<close> sorts by descending score.
\<close>

definition getImpactfulColors :: "floatOps \<Rightarrow> pixel list \<Rightarrow> nat \<Rightarrow> nat \<Rightarrow> nat \<Rightarrow> rgb list" where
  "getImpactfulColors ops data w h numColors =
     (let candidateCount = min (numColors * 4) 64;
          allColors = colorHistogram ops data w h;
          candidates = take candidateCount (sort_key (\<lambda>(c, impactScore, pixelCount). - impactScore) allColors)
      in if length candidates \<le> numColors then map fst candidates
         else
           let finalPalette = selectionLoop (\<lambda>a b. deltaE ops (fst a) (fst b)) numColors
                                [hd candidates] (tl candidates);
               finalPaletteRGB = map fst finalPalette;
               closestColorIndex = closestIndex (backgroundDeltaE ops data w h) finalPaletteRGB;
               reordered = moveToFront closestColorIndex finalPaletteRGB;
               tempBandMap = createBandMap data reordered
           in thinFeatureOrder (analyzeColorUsage tempBandMap) reordered)"

section \<open>Uniqueness enforcement (image\_worker.js, lines 524--634)\<close>

text \<open>
  \<open>preprocessImageData\<close> (\<open>img\<close> is the pixel buffer \<open>imageData\<close>):
  \<open>Math.round(v / 32) * 32\<close> is \<open>((v + 16) div 32) * 32\<close> on a
  byte, and storing into the \<open>Uint8ClampedArray\<close> clamps 256 to 255.
\<close>

definition quantize :: "byte \<Rightarrow> byte" where
  "quantize v = of_nat (min 255 (((unat v + 16) div 32) * 32))"

definition preprocessImageData :: "pixel list \<Rightarrow> pixel list" where
  "preprocessImageData img =
     map (\<lambda>(r, g, b, a). (quantize r, quantize g, quantize b, a)) img"

text \<open>
  The random source: \<open>rnd t\<close> stands for the \<open>t\<close>-th call of \<open>Math.random()\<close>, and
  \<open>randomBelow rnd t n\<close> for \<open>Math.floor(Math.random() * n)\<close> at that call, which is
  any index below \<open>n\<close> (and 0 for \<open>n = 0\<close>). The functions thread the number of calls
  made so far.
\<close>

definition randomBelow :: "(nat \<Rightarrow> nat) \<Rightarrow> nat \<Rightarrow> nat \<Rightarrow> nat" where
  "randomBelow rnd t n = (if n = 0 then 0 else rnd t mod n)"

text \<open>Lines 591--602: is the colour at distance 10000 or more from every used colour?\<close>

fun isDistinct :: "rgb \<Rightarrow> string list \<Rightarrow> bool" where
  "isDistinct c [] = True"
| "isDistinct c (usedColor # rest) =
     (if colorDistance c (hexToRgb usedColor) < 10000 then False else isDistinct c rest)"

text \<open>
  \<open>findDistinctColor\<close>, by the number of attempts left. On an empty image the pixel read is
  \<open>undefined\<close>: every distance is NaN, so the first attempt returns
  \<open>rgbToHex(undefined, undefined, undefined)\<close>, the string of three \<open>NaN\<close>.
\<close>

fun findDistinctAttempts :: "(nat \<Rightarrow> nat) \<Rightarrow> nat \<Rightarrow> nat \<Rightarrow> string list \<Rightarrow> pixel list \<Rightarrow> string \<times> nat" where
  "findDistinctAttempts rnd t 0 usedColors img =
     (let r = int (randomBelow rnd t 256);
          g = int (randomBelow rnd (t + 1) 256);
          b = int (randomBelow rnd (t + 2) 256)
      in (rgbToHex r g b, t + 3))"
| "findDistinctAttempts rnd t (Suc attemptsLeft) usedColors img =
     (if img = [] then (''#NaNNaNNaN'', Suc t)
      else
        let pixelIndex = randomBelow rnd t (length img);
            c = pixelColor (img ! pixelIndex)
        in if isDistinct c usedColors then (case c of (r, g, b) \<Rightarrow> rgbToHex r g b, Suc t)
           else findDistinctAttempts rnd (Suc t) attemptsLeft usedColors img)"

definition findDistinctColor :: "(nat \<Rightarrow> nat) \<Rightarrow> nat \<Rightarrow> string list \<Rightarrow> pixel list \<Rightarrow> string \<times> nat" where
  "findDistinctColor rnd t usedColors img = findDistinctAttempts rnd t 100 usedColors img"

text \<open>\<open>usedColors\<close> is a \<open>Set\<close>: \<open>add\<close> keeps the first occurrence.\<close>

definition setAdd :: "'a \<Rightarrow> 'a list \<Rightarrow> 'a list" where
  "setAdd x s = (if x \<in> set s then s else s @ [x])"

fun ensureUniqueLoop :: "(nat \<Rightarrow> nat) \<Rightarrow> nat \<Rightarrow> string list \<Rightarrow> pixel list \<Rightarrow> string list \<Rightarrow> string list \<Rightarrow> string list" where
  "ensureUniqueLoop rnd t [] img uniqueColors usedColors = uniqueColors"
| "ensureUniqueLoop rnd t (color # colors) img uniqueColors usedColors =
     (if color \<in> set usedColors then
        (case findDistinctColor rnd t usedColors img of
           (alternative, t') \<Rightarrow>
             ensureUniqueLoop rnd t' colors img (uniqueColors @ [alternative])
               (setAdd alternative usedColors))
      else ensureUniqueLoop rnd t colors img (uniqueColors @ [color]) (setAdd color usedColors))"

definition ensureUniqueColors :: "(nat \<Rightarrow> nat) \<Rightarrow> string list \<Rightarrow> pixel list \<Rightarrow> string list" where
  "ensureUniqueColors rnd colors img = ensureUniqueLoop rnd 0 colors img [] []"

definition getSuggestedColors :: "floatOps \<Rightarrow> (nat \<Rightarrow> nat) \<Rightarrow> pixel list \<Rightarrow> nat \<Rightarrow> nat \<Rightarrow> nat \<Rightarrow> string list" where
  "getSuggestedColors ops rnd img bands w h =
     (let preprocessedData = preprocessImageData img;
          dominantColors = getImpactfulColors ops preprocessedData w h bands;
          hexColors = map (\<lambda>c. case c of (r, g, b) \<Rightarrow> rgbToHex r g b) dominantColors
      in ensureUniqueColors rnd hexColors img)"

section \<open>Filament matching (image\_worker.js, lines 447--516)\<close>

record filament =
  filamentId :: string
  filamentName :: string
  filamentType :: string
  color :: string

text \<open>
  Lines 460--475: one match per pair of a suggested colour and a filament, in the order of
  the two nested \<open>forEach\<close> loops, as \<open>(suggestedIndex, filamentIndex, distance)\<close>.
\<close>

definition allMatches :: "string list \<Rightarrow> string list \<Rightarrow> (nat \<times> nat \<times> int) list" where
  "allMatches suggested filamentColors =
     concat (map (\<lambda>suggestedIndex.
                    map (\<lambda>filamentIndex.
                           (suggestedIndex, filamentIndex,
                            colorDistance (hexToRgb (suggested ! suggestedIndex))
                              (hexToRgb (filamentColors ! filamentIndex))))
                      [0..<length filamentColors])
               [0..<length suggested])"

text \<open>
  The state of the greedy pass: \<open>matchedPalette\<close> is \<open>new Array(n)\<close>, whose unassigned
  slots read \<open>undefined\<close> (\<open>None\<close>); the two \<open>Set\<close>s hold indices.
\<close>

record matchState =
  matchedPalette :: "string option list"
  usedFilaments :: "nat set"
  usedSuggestions :: "nat set"

text \<open>Lines 485--495, the body of \<open>allMatches.forEach\<close>.\<close>

definition assignMatch :: "string list \<Rightarrow> matchState \<Rightarrow> nat \<times> nat \<times> int \<Rightarrow> matchState" where
  "assignMatch filamentColors st m =
     (case m of (suggestedIndex, filamentIndex, distance) \<Rightarrow>
        if suggestedIndex \<in> usedSuggestions st \<or> filamentIndex \<in> usedFilaments st then st
        else st\<lparr>matchedPalette :=
                   (matchedPalette st)[suggestedIndex := Some (filamentColors ! filamentIndex)],
                 usedSuggestions := insert suggestedIndex (usedSuggestions st),
                 usedFilaments := insert filamentIndex (usedFilaments st)\<rparr>)"

text \<open>\<open>!matchedPalette[i]\<close> holds for an unassigned slot and for the empty string.\<close>

definition isFalsy :: "string option \<Rightarrow> bool" where
  "isFalsy v = (case v of None \<Rightarrow> True | Some s \<Rightarrow> s = [])"

text \<open>
  Lines 498--513, the body of the fill loop for index \<open>i\<close>: the first unused filament
  is taken and marked used; a slot that is still falsy afterwards gets
  \<open>filamentColors[0]\<close>.
\<close>

definition fillStep :: "string list \<Rightarrow> string option list \<times> nat set \<Rightarrow> nat \<Rightarrow> string option list \<times> nat set" where
  "fillStep filamentColors st i =
     (case st of (mp, used) \<Rightarrow>
        if isFalsy (mp ! i) then
          (case find (\<lambda>j. j \<notin> used) [0..<length filamentColors] of
             None \<Rightarrow> (mp[i := Some (filamentColors ! 0)], used)
           | Some j \<Rightarrow>
               if isFalsy (Some (filamentColors ! j))
               then (mp[i := Some (filamentColors ! 0)], insert j used)
               else (mp[i := Some (filamentColors ! j)], insert j used))
        else (mp, used))"

text \<open>
  Lines 477--495: the matches are sorted by ascending distance (the comparator is
  \<open>a.distance - b.distance\<close>, and the sort is stable) and assigned greedily.
\<close>

definition greedyPass :: "string list \<Rightarrow> string list \<Rightarrow> matchState" where
  "greedyPass suggested filamentColors =
     foldl (assignMatch filamentColors)
       \<lparr>matchedPalette = replicate (length suggested) None,
        usedFilaments = {}, usedSuggestions = {}\<rparr>
       (sort_key (\<lambda>(suggestedIndex, filamentIndex, distance). distance)
          (allMatches suggested filamentColors))"

text \<open>
  \<open>matchToPalette\<close>. An inventory that is \<open>null\<close> or \<open>undefined\<close> is \<open>None\<close>. The
  result is the array \<open>matchedPalette\<close> after the fill loop; with no inventory the
  suggested palette (\<open>suggested\<close>) is returned as it is.
\<close>

definition matchToPalette :: "string list \<Rightarrow> filament list option \<Rightarrow> string option list" where
  "matchToPalette suggested myFilaments =
     (case myFilaments of
        None \<Rightarrow> map Some suggested
      | Some fs \<Rightarrow>
          if fs = [] then map Some suggested
          else
            let filamentColors = map color fs;
                st = greedyPass suggested filamentColors
            in fst (foldl (fillStep filamentColors) (matchedPalette st, usedFilaments st)
                      [0..<length suggested]))"

text \<open>
  The invariant of the greedy pass, for a palette of \<open>n\<close> colours: the used suggestions
  are assigned the colours of pairwise different used filaments (\<open>g\<close> is the assignment),
  and the other slots are unassigned.
\<close>

definition greedyInvariant :: "string list \<Rightarrow> nat \<Rightarrow> (nat \<Rightarrow> nat) \<Rightarrow> matchState \<Rightarrow> bool" where
  "greedyInvariant filamentColors n g st \<longleftrightarrow>
     length (matchedPalette st) = n \<and>
     usedSuggestions st \<subseteq> {..<n} \<and>
     usedFilaments st \<subseteq> {..<length filamentColors} \<and>
     inj_on g (usedSuggestions st) \<and>
     g ` usedSuggestions st = usedFilaments st \<and>
     (\<forall>s\<in>usedSuggestions st. matchedPalette st ! s = Some (filamentColors ! g s)) \<and>
     (\<forall>s<n. s \<notin> usedSuggestions st \<longrightarrow> matchedPalette st ! s = None)"

section \<open>Arithmetic on JavaScript numbers\<close>

text \<open>
  The operations that \<open>stl_exporter.js\<close> applies to numbers, with the special values of
  IEEE 754. The program divides by zero only where the divisor is a positive zero
  (\<open>imageWidth - 1\<close> for a width of 1); the model has one zero, a positive one.
\<close>

fun jsAdd :: "jsnum \<Rightarrow> jsnum \<Rightarrow> jsnum" where
  "jsAdd (Num x) (Num y) = fromReal (x + y)"
| "jsAdd NaN b = NaN"
| "jsAdd a NaN = NaN"
| "jsAdd PInf NInf = NaN"
| "jsAdd NInf PInf = NaN"
| "jsAdd PInf b = PInf"
| "jsAdd a PInf = PInf"
| "jsAdd NInf b = NInf"
| "jsAdd a NInf = NInf"

definition jsSub :: "jsnum \<Rightarrow> jsnum \<Rightarrow> jsnum" where
  "jsSub a b = jsAdd a (jsNegate b)"

fun jsSign :: "jsnum \<Rightarrow> int" where
  "jsSign (Num x) = (if x < 0 then - 1 else if x = 0 then 0 else 1)"
| "jsSign PInf = 1"
| "jsSign NInf = - 1"
| "jsSign NaN = 0"

definition signedInf :: "int \<Rightarrow> jsnum" where
  "signedInf s = (if s < 0 then NInf else PInf)"

fun jsMul :: "jsnum \<Rightarrow> jsnum \<Rightarrow> jsnum" where
  "jsMul (Num x) (Num y) = fromReal (x * y)"
| "jsMul NaN b = NaN"
| "jsMul a NaN = NaN"
| "jsMul a b = (if jsSign a * jsSign b = 0 then NaN else signedInf (jsSign a * jsSign b))"

fun jsDiv :: "jsnum \<Rightarrow> jsnum \<Rightarrow> jsnum" where
  "jsDiv (Num x) (Num y) =
     (if y = 0 then (if x = 0 then NaN else signedInf (jsSign (Num x))) else fromReal (x / y))"
| "jsDiv NaN b = NaN"
| "jsDiv a NaN = NaN"
| "jsDiv (Num x) b = Num 0"
| "jsDiv a (Num y) = signedInf (jsSign a * (if y < 0 then - 1 else 1))"
| "jsDiv a b = NaN"

fun jsSqrt :: "jsnum \<Rightarrow> jsnum" where
  "jsSqrt (Num x) = (if x < 0 then NaN else Num (sqrt x))"
| "jsSqrt PInf = PInf"
| "jsSqrt a = NaN"

text \<open>\<open>a || b\<close> on numbers: 0 and NaN are falsy.\<close>

definition jsOr :: "jsnum \<Rightarrow> jsnum \<Rightarrow> jsnum" where
  "jsOr a b = (if a = Num 0 \<or> a = NaN then b else a)"

section \<open>generateStl (stl\_exporter.js)\<close>

text \<open>
  The inputs of \<open>generateStl\<close>, named as its local constants: the band raster
  (\<open>appState.bandMap\<close>, a \<open>Float32Array\<close>), the size of the canvas, and the parsed values
  of the input fields (\<open>parseFloat\<close> and \<open>parseInt\<close> return a number, possibly NaN).
\<close>

record stlInput =
  bandMap :: "jsnum list"
  imageWidth :: nat
  imageHeight :: nat
  singleLayerHeight :: jsnum
  additionalBandLayers :: jsnum
  baseThicknessInLayers :: jsnum
  numBands :: jsnum
  modelWidth :: jsnum
  modelDepth :: jsnum

type_synonym vertex = "jsnum \<times> jsnum \<times> jsnum"

text \<open>
  \<open>new Array(numBands)\<close> raises a RangeError unless \<open>numBands\<close> is an integer in
  \<open>[0, 2^32 - 1]\<close>.
\<close>

definition arrayLength :: "jsnum \<Rightarrow> nat option" where
  "arrayLength a =
     (case a of
        Num x \<Rightarrow> if 0 \<le> x \<and> x < 2 ^ 32 \<and> x = real_of_int \<lfloor>x\<rfloor> then Some (nat \<lfloor>x\<rfloor>) else None
      | _ \<Rightarrow> None)"

text \<open>Lines 34--36: the distance between adjacent pixels.\<close>

definition pixelSpacing :: "jsnum \<Rightarrow> nat \<Rightarrow> jsnum" where
  "pixelSpacing modelSize imageSize = jsDiv modelSize (Num (real imageSize - 1))"

text \<open>
  Lines 40--45: the height table. \<open>bandHeights[0]\<close> is assigned whatever the band count
  is, and each further band adds the increment to the height before it.
\<close>

fun bandHeightsFrom :: "jsnum \<Rightarrow> jsnum \<Rightarrow> nat \<Rightarrow> jsnum list" where
  "bandHeightsFrom previous increment 0 = []"
| "bandHeightsFrom previous increment (Suc k) =
     jsAdd previous increment # bandHeightsFrom (jsAdd previous increment) increment k"

definition bandHeightTable :: "stlInput \<Rightarrow> nat \<Rightarrow> jsnum list" where
  "bandHeightTable inp n =
     jsMul (baseThicknessInLayers inp) (singleLayerHeight inp)
       # bandHeightsFrom (jsMul (baseThicknessInLayers inp) (singleLayerHeight inp))
           (jsMul (additionalBandLayers inp) (singleLayerHeight inp)) (n - 1)"

text \<open>
  \<open>bandHeights[band]\<close> (line 72): the property key of a number is an array index only
  for a non-negative integer; any other key, \<open>undefined\<close> included, finds nothing.
  \<open>None\<close> is \<open>undefined\<close>.
\<close>

definition lookupHeight :: "jsnum list \<Rightarrow> jsnum option \<Rightarrow> jsnum option" where
  "lookupHeight bandHeights band =
     (case band of
        Some (Num x) \<Rightarrow>
          if 0 \<le> x \<and> x = real_of_int \<lfloor>x\<rfloor> \<and> nat \<lfloor>x\<rfloor> < length bandHeights
          then Some (bandHeights ! nat \<lfloor>x\<rfloor>) else None
      | _ \<Rightarrow> None)"

definition arrayAt :: "'a list \<Rightarrow> nat \<Rightarrow> 'a option" where
  "arrayAt xs k = (if k < length xs then Some (xs ! k) else None)"

text \<open>Lines 60--74: the two vertices of the pixel in column \<open>i\<close> of row \<open>j\<close>.\<close>

definition bottomVertex :: "stlInput \<Rightarrow> nat \<Rightarrow> nat \<Rightarrow> vertex" where
  "bottomVertex inp j i =
     (jsMul (Num (real i)) (pixelSpacing (modelWidth inp) (imageWidth inp)),
      jsMul (Num (real j)) (pixelSpacing (modelDepth inp) (imageHeight inp)),
      Num 0)"

definition topVertex :: "stlInput \<Rightarrow> jsnum list \<Rightarrow> nat \<Rightarrow> nat \<Rightarrow> vertex" where
  "topVertex inp bandHeights j i =
     (let bandMapIndex = (imageHeight inp - 1 - j) * imageWidth inp + i;
          band = arrayAt (bandMap inp) bandMapIndex;
          height = (case lookupHeight bandHeights band of None \<Rightarrow> Num 0 | Some v \<Rightarrow> jsOr v (Num 0))
      in (jsMul (Num (real i)) (pixelSpacing (modelWidth inp) (imageWidth inp)),
          jsMul (Num (real j)) (pixelSpacing (modelDepth inp) (imageHeight inp)),
          height))"

text \<open>
  The state of the vertex loop. \<open>bottomVertices\<close> and \<open>topVertices\<close> are
  \<open>new Array(imageWidth * imageHeight)\<close>: a slot not yet assigned is \<open>None\<close>.
\<close>

record vertexState =
  vertices :: "vertex list"
  bottomVertices :: "nat option list"
  topVertices :: "nat option list"

definition vertexStep :: "stlInput \<Rightarrow> jsnum list \<Rightarrow> nat \<Rightarrow> vertexState \<Rightarrow> nat \<Rightarrow> vertexState" where
  "vertexStep inp bandHeights j st i =
     (let pixelIndex = j * imageWidth inp + i;
          bottomVertices' = (bottomVertices st)[pixelIndex := Some (length (vertices st))];
          vertices1 = vertices st @ [bottomVertex inp j i];
          topVertices' = (topVertices st)[pixelIndex := Some (length vertices1)];
          vertices2 = vertices1 @ [topVertex inp bandHeights j i]
      in \<lparr>vertices = vertices2, bottomVertices = bottomVertices', topVertices = topVertices'\<rparr>)"

definition generateVertices :: "stlInput \<Rightarrow> jsnum list \<Rightarrow> vertexState" where
  "generateVertices inp bandHeights =
     foldl (\<lambda>st j. foldl (vertexStep inp bandHeights j) st [0..<imageWidth inp])
       \<lparr>vertices = [],
        bottomVertices = replicate (imageWidth inp * imageHeight inp) None,
        topVertices = replicate (imageWidth inp * imageHeight inp) None\<rparr>
       [0..<imageHeight inp]"

text \<open>
  A face holds three vertex indices; an index read from an unassigned slot or beyond an
  array is \<open>undefined\<close> (\<open>None\<close>). \<open>slot\<close> is such a read.
\<close>

type_synonym face = "nat option \<times> nat option \<times> nat option"

definition slot :: "nat option list \<Rightarrow> nat \<Rightarrow> nat option" where
  "slot arr k = (if k < length arr then arr ! k else None)"

text \<open>Lines 83--103: four triangles for the quad at column \<open>i\<close> of row \<open>j\<close>.\<close>

definition quadFaces :: "nat \<Rightarrow> vertexState \<Rightarrow> nat \<Rightarrow> nat \<Rightarrow> face list" where
  "quadFaces w st j i =
     (let v00_t = slot (topVertices st) (j * w + i);
          v10_t = slot (topVertices st) (j * w + i + 1);
          v01_t = slot (topVertices st) ((j + 1) * w + i);
          v11_t = slot (topVertices st) ((j + 1) * w + i + 1);
          v00_b = slot (bottomVertices st) (j * w + i);
          v10_b = slot (bottomVertices st) (j * w + i + 1);
          v01_b = slot (bottomVertices st) ((j + 1) * w + i);
          v11_b = slot (bottomVertices st) ((j + 1) * w + i + 1)
      in [(v00_t, v10_t, v11_t), (v00_t, v11_t, v01_t),
          (v00_b, v11_b, v10_b), (v00_b, v01_b, v11_b)])"

text \<open>
  Lines 107--134: the front (\<open>jf = 0\<close>) and back (\<open>jb = imageHeight - 1\<close>) walls at column
  \<open>i\<close>. For a height of 0 the source computes \<open>jb = -1\<close> and reads a negative index,
  which is \<open>undefined\<close>; the model reads \<open>jb = 0\<close> from arrays that are empty then,
  which is \<open>undefined\<close> as well.
\<close>

definition frontBackFaces :: "nat \<Rightarrow> nat \<Rightarrow> vertexState \<Rightarrow> nat \<Rightarrow> face list" where
  "frontBackFaces w h st i =
     (let jf = 0; jb = h - 1
      in [(slot (bottomVertices st) (jf * w + i), slot (topVertices st) (jf * w + i),
           slot (topVertices st) (jf * w + i + 1)),
          (slot (bottomVertices st) (jf * w + i), slot (topVertices st) (jf * w + i + 1),
           slot (bottomVertices st) (jf * w + i + 1)),
          (slot (bottomVertices st) (jb * w + i), slot (topVertices st) (jb * w + i + 1),
           slot (topVertices st) (jb * w + i)),
          (slot (bottomVertices st) (jb * w + i), slot (bottomVertices st) (jb * w + i + 1),
           slot (topVertices st) (jb * w + i + 1))])"

text \<open>
  Lines 138--165: the left (\<open>il = 0\<close>) and right (\<open>ir = imageWidth - 1\<close>) walls at row
  \<open>j\<close>; for a width of 0 the remark on \<open>jb\<close> applies to \<open>ir\<close>.
\<close>

definition leftRightFaces :: "nat \<Rightarrow> vertexState \<Rightarrow> nat \<Rightarrow> face list" where
  "leftRightFaces w st j =
     (let il = 0; ir = w - 1
      in [(slot (bottomVertices st) (j * w + il), slot (topVertices st) (j * w + il),
           slot (topVertices st) ((j + 1) * w + il)),
          (slot (bottomVertices st) (j * w + il), slot (topVertices st) ((j + 1) * w + il),
           slot (bottomVertices st) ((j + 1) * w + il)),
          (slot (bottomVertices st) (j * w + ir), slot (topVertices st) ((j + 1) * w + ir),
           slot (topVertices st) (j * w + ir)),
          (slot (bottomVertices st) (j * w + ir), slot (bottomVertices st) ((j + 1) * w + ir),
           slot (topVertices st) ((j + 1) * w + ir))])"

definition generateFaces :: "nat \<Rightarrow> nat \<Rightarrow> vertexState \<Rightarrow> face list" where
  "generateFaces w h st =
     concat (map (\<lambda>j. concat (map (quadFaces w st j) [0..<w - 1])) [0..<h - 1])
     @ concat (map (frontBackFaces w h st) [0..<w - 1])
     @ concat (map (leftRightFaces w st) [0..<h - 1])"

text \<open>Lines 185--193: the cross product of the two edge vectors of a triangle.\<close>

definition crossProduct :: "vertex \<Rightarrow> vertex \<Rightarrow> vertex \<Rightarrow> vertex" where
  "crossProduct v1 v2 v3 =
     (case v1 of (x1, y1, z1) \<Rightarrow> case v2 of (x2, y2, z2) \<Rightarrow> case v3 of (x3, y3, z3) \<Rightarrow>
        let ux = jsSub x2 x1; uy = jsSub y2 y1; uz = jsSub z2 z1;
            vx = jsSub x3 x1; vy = jsSub y3 y1; vz = jsSub z3 z1
        in (jsSub (jsMul uy vz) (jsMul uz vy),
            jsSub (jsMul uz vx) (jsMul ux vz),
            jsSub (jsMul ux vy) (jsMul uy vx)))"

text \<open>
  Lines 195--197: the normalized normal. \<open>n[k] ** 2\<close> is the product of \<open>n[k]\<close> with
  itself, and \<open>|| 1\<close> replaces a length that is 0 or NaN.
\<close>

definition faceNormal :: "vertex \<Rightarrow> vertex \<Rightarrow> vertex \<Rightarrow> vertex" where
  "faceNormal v1 v2 v3 =
     (case crossProduct v1 v2 v3 of (n0, n1, n2) \<Rightarrow>
        let len = jsOr (jsSqrt (jsAdd (jsAdd (jsMul n0 n0) (jsMul n1 n1)) (jsMul n2 n2))) (Num 1)
        in (jsDiv n0 len, jsDiv n1 len, jsDiv n2 len))"

text \<open>
  A serialized triangle: the normal and the three vertices, the numbers that
  \<open>setFloat32\<close> writes (their conversion to 32-bit floats and the byte layout are not
  modelled). Reading a coordinate of a vertex that is \<open>undefined\<close> raises a TypeError.
\<close>

type_synonym triangle = "vertex \<times> vertex \<times> vertex \<times> vertex"

definition vertexOf :: "vertex list \<Rightarrow> nat option \<Rightarrow> vertex option" where
  "vertexOf vs k = (case k of None \<Rightarrow> None | Some n \<Rightarrow> arrayAt vs n)"

definition serializeFace :: "vertex list \<Rightarrow> face \<Rightarrow> error + triangle" where
  "serializeFace vs f =
     (case f of (i1, i2, i3) \<Rightarrow>
        (case (vertexOf vs i1, vertexOf vs i2, vertexOf vs i3) of
           (Some v1, Some v2, Some v3) \<Rightarrow> Inr (faceNormal v1 v2 v3, v1, v2, v3)
         | _ \<Rightarrow> Inl TypeError))"

fun serializeFaces :: "vertex list \<Rightarrow> face list \<Rightarrow> error + triangle list" where
  "serializeFaces vs [] = Inr []"
| "serializeFaces vs (f # fs) =
     (case serializeFace vs f of
        Inl e \<Rightarrow> Inl e
      | Inr t \<Rightarrow> (case serializeFaces vs fs of Inl e \<Rightarrow> Inl e | Inr ts \<Rightarrow> Inr (t # ts)))"

text \<open>
  The file: the triangle count written at offset 80 as an unsigned 32-bit integer, and the
  triangles.
\<close>

record stl =
  triangleCount :: "32 word"
  triangles :: "triangle list"

definition generateStl :: "stlInput \<Rightarrow> error + stl" where
  "generateStl inp =
     (case arrayLength (numBands inp) of
        None \<Rightarrow> Inl RangeError
      | Some n \<Rightarrow>
          let bandHeights = bandHeightTable inp n;
              st = generateVertices inp bandHeights;
              faces = generateFaces (imageWidth inp) (imageHeight inp) st
          in case serializeFaces (vertices st) faces of
               Inl e \<Rightarrow> Inl e
             | Inr ts \<Rightarrow> Inr \<lparr>triangleCount = of_nat (length faces), triangles = ts\<rparr>)"

text \<open>
  The invariant of the vertex loop after \<open>p\<close> pixels: pixel \<open>q\<close> owns the vertices
  \<open>2q\<close> (bottom) and \<open>2q + 1\<close> (top). A face is valid when its three indices are
  defined and within the vertex array.
\<close>

definition vertexInvariant :: "stlInput \<Rightarrow> jsnum list \<Rightarrow> nat \<Rightarrow> vertexState \<Rightarrow> bool" where
  "vertexInvariant inp bandHeights p st \<longleftrightarrow>
     length (vertices st) = 2 * p \<and>
     length (bottomVertices st) = imageWidth inp * imageHeight inp \<and>
     length (topVertices st) = imageWidth inp * imageHeight inp \<and>
     (\<forall>q<p. bottomVertices st ! q = Some (2 * q) \<and>
            topVertices st ! q = Some (2 * q + 1) \<and>
            vertices st ! (2 * q) = bottomVertex inp (q div imageWidth inp) (q mod imageWidth inp) \<and>
            vertices st ! (2 * q + 1)
              = topVertex inp bandHeights (q div imageWidth inp) (q mod imageWidth inp))"

definition validIndex :: "nat \<Rightarrow> nat option \<Rightarrow> bool" where
  "validIndex n k = (case k of None \<Rightarrow> False | Some v \<Rightarrow> v < n)"

definition validFace :: "nat \<Rightarrow> face \<Rightarrow> bool" where
  "validFace n f = (case f of (i1, i2, i3) \<Rightarrow> validIndex n i1 \<and> validIndex n i2 \<and> validIndex n i3)"

text \<open>A vertex whose coordinates are finite and at most \<open>B\<close> in magnitude.\<close>

definition boundedVertex :: "real \<Rightarrow> vertex \<Rightarrow> bool" where
  "boundedVertex B v =
     (case v of
        (Num x, Num y, Num z) \<Rightarrow> \<bar>x\<bar> \<le> B \<and> \<bar>y\<bar> \<le> B \<and> \<bar>z\<bar> \<le> B
      | _ \<Rightarrow> False)"

text \<open>A bound on coordinates below which the normal computation cannot overflow.\<close>

definition coordinateBound :: real where
  "coordinateBound = 2 ^ 250"

subsection \<open>Example inputs\<close>

definition example2x2 :: stlInput where
  "example2x2 = \<lparr>bandMap = [Num 0, Num 1, Num 7, Num (1 / 2)], imageWidth = 2, imageHeight = 2,
     singleLayerHeight = Num (1 / 5), additionalBandLayers = Num 2, baseThicknessInLayers = Num 3,
     numBands = Num 2, modelWidth = Num 10, modelDepth = Num 10\<rparr>"

definition example1x1 :: stlInput where
  "example1x1 = \<lparr>bandMap = [Num 0], imageWidth = 1, imageHeight = 1,
     singleLayerHeight = Num (1 / 5), additionalBandLayers = Num 2, baseThicknessInLayers = Num 3,
     numBands = Num 2, modelWidth = Num 10, modelDepth = Num 10\<rparr>"

section \<open>Verification: hex colour strings\<close>


lemma and_255_int: "(k::int) AND 255 = k mod 256"
proof -
  have "(255::int) = mask 8" by (simp add: mask_eq_exp_minus_1)
  then have "k AND 255 = take_bit 8 k" by (simp only: take_bit_eq_mask)
  then show ?thesis by (simp add: take_bit_eq_mod)
qed

lemma less_16_cases:
  "d < 16 \<Longrightarrow> d = 0 \<or> d = 1 \<or> d = 2 \<or> d = 3 \<or> d = 4 \<or> d = 5 \<or> d = 6 \<or> d = 7 \<or> d = 8
     \<or> d = 9 \<or> d = 10 \<or> d = 11 \<or> d = 12 \<or> d = 13 \<or> d = 14 \<or> d = (15::nat)"
  by arith

lemma hexDigitChar_props:
  assumes "d < 16"
  shows "digitValue (hexDigitChar d) = Some d"
    and "isRadixDigit 16 (hexDigitChar d)"
    and "\<not> isWhiteSpace (hexDigitChar d)"
    and "hexDigitChar d \<noteq> CHR ''-''" and "hexDigitChar d \<noteq> CHR ''+''"
    and "hexDigitChar d \<noteq> CHR ''x''" and "hexDigitChar d \<noteq> CHR ''X''"
  using less_16_cases [OF assms]
  by (auto simp: hexDigitChar_def digitValue_def isRadixDigit_def isWhiteSpace_def)

lemma padStart2_byte:
  assumes "0 \<le> v" "v \<le> 255"
  shows "padStart2 (toString16 v) = [hexDigitChar (nat v div 16), hexDigitChar (nat v mod 16)]"
proof (cases "nat v < 16")
  case True
  then show ?thesis using assms
    by (simp add: padStart2_def toString16_def hexDigitChar_def)
next
  case False
  have "nat v div 16 < 16" using assms by simp
  then show ?thesis using assms False
    by (simp add: padStart2_def toString16_def)
qed

lemma parseInt_six_digits:
  assumes "d1 < 16" "d2 < 16" "d3 < 16" "d4 < 16" "d5 < 16" "d6 < 16"
  shows "parseInt [hexDigitChar d1, hexDigitChar d2, hexDigitChar d3,
                   hexDigitChar d4, hexDigitChar d5, hexDigitChar d6] 16
         = Num (real (((((d1 * 16 + d2) * 16 + d3) * 16 + d4) * 16 + d5) * 16 + d6))"
proof -
  have lt: "((((d1 * 16 + d2) * 16 + d3) * 16 + d4) * 16 + d5) * 16 + d6 < 2 ^ 53"
    using assms by simp
  show ?thesis
    using lt by (simp add: parseInt_def digitsToNat_def toDouble_def hexDigitChar_props [OF assms(1)]
        hexDigitChar_props [OF assms(2)] hexDigitChar_props [OF assms(3)]
        hexDigitChar_props [OF assms(4)] hexDigitChar_props [OF assms(5)]
        hexDigitChar_props [OF assms(6)])
qed


lemma byte_extract:
  fixes r g b :: nat
  assumes "r < 256" "g < 256" "b < 256"
  shows "(int r * 65536 + int g * 256 + int b) div 65536 = int r"
    and "(int r * 65536 + int g * 256 + int b) div 256 mod 256 = int g"
    and "(int r * 65536 + int g * 256 + int b) mod 256 = int b"
proof -
  have "int g * 256 + int b < 65536" "0 \<le> int g * 256 + int b" using assms by simp_all
  then show "(int r * 65536 + int g * 256 + int b) div 65536 = int r"
    by (simp add: add.assoc)
  have "(int r * 65536 + int g * 256 + int b) div 256 = int r * 256 + int g"
    using assms by simp
  then show "(int r * 65536 + int g * 256 + int b) div 256 mod 256 = int g"
    using assms by simp
  have "int r * 65536 + int g * 256 + int b = 256 * (int r * 256 + int g) + int b"
    by simp
  then show "(int r * 65536 + int g * 256 + int b) mod 256 = int b"
    using assms by (simp only: mod_mult_self4) simp
qed

lemma hex_value:
  fixes r g b :: nat
  shows "((((r div 16 * 16 + r mod 16) * 16 + g div 16) * 16 + g mod 16) * 16 + b div 16) * 16 + b mod 16
         = r * 65536 + g * 256 + b"
proof -
  have "((((r div 16 * 16 + r mod 16) * 16 + g div 16) * 16 + g mod 16) * 16 + b div 16) * 16 + b mod 16
     = (r div 16 * 16 + r mod 16) * 65536 + (g div 16 * 16 + g mod 16) * 256 + (b div 16 * 16 + b mod 16)"
    by (simp add: algebra_simps)
  then show ?thesis by simp
qed

lemma truncToInt_of_nat: "truncToInt (real n) = int n"
  by (simp add: truncToInt_def)

lemma hexToRgb_rgbToHex_byte:
  assumes "0 \<le> r" "r \<le> 255" "0 \<le> g" "g \<le> 255" "0 \<le> b" "b \<le> 255"
  shows "hexToRgb (rgbToHex r g b) = (r, g, b)"
proof -
  define r' g' b' where "r' = nat r" and "g' = nat g" and "b' = nat b"
  have bnd: "r' < 256" "g' < 256" "b' < 256" and eq: "r = int r'" "g = int g'" "b = int b'"
    using assms by (simp_all add: r'_def g'_def b'_def)
  have d: "r' div 16 < 16" "r' mod 16 < 16" "g' div 16 < 16" "g' mod 16 < 16"
    "b' div 16 < 16" "b' mod 16 < 16"
    using bnd by simp_all
  have str: "drop 1 (rgbToHex r g b) =
      [hexDigitChar (r' div 16), hexDigitChar (r' mod 16), hexDigitChar (g' div 16),
       hexDigitChar (g' mod 16), hexDigitChar (b' div 16), hexDigitChar (b' mod 16)]"
    using assms by (simp add: rgbToHex_def padStart2_byte r'_def g'_def b'_def)
  have val: "parseInt (drop 1 (rgbToHex r g b)) 16 = Num (real (r' * 65536 + g' * 256 + b'))"
    unfolding str parseInt_six_digits [OF d] hex_value ..
  have lt: "int r' * 65536 + int g' * 256 + int b' < 2 ^ 31"
    using bnd by simp
  have t: "toInt32 (parseInt (drop 1 (rgbToHex r g b)) 16) = int r' * 65536 + int g' * 256 + int b'"
    unfolding val toInt32.simps truncToInt_of_nat using lt by (simp add: signed_take_bit_int_eq_self)
  define V where "V = int r' * 65536 + int g' * 256 + int b'"
  have "hexToRgb (rgbToHex r g b) = (drop_bit 16 V AND 255, drop_bit 8 V AND 255, V AND 255)"
    by (simp only: hexToRgb_def t Let_def V_def)
  also have "\<dots> = (int r', int g', int b')"
    using byte_extract [OF bnd] bnd by (simp add: and_255_int drop_bit_eq_div V_def)
  finally show ?thesis by (simp add: eq)
qed

text \<open>
  Claim C9. For all integers \<open>r\<close>, \<open>g\<close>, \<open>b\<close> in \<open>[0, 255]\<close>,
  \<open>hexToRgb(rgbToHex(r, g, b))\<close> returns exactly \<open>{r, g, b}\<close>: the six-digit hex
  encoding round-trips on 8-bit channels.
\<close>

theorem hexToRgb_rgbToHex_roundtrip:
  "0 \<le> r \<and> r \<le> 255 \<and> 0 \<le> g \<and> g \<le> 255 \<and> 0 \<le> b \<and> b \<le> 255
   \<Longrightarrow> hexToRgb (rgbToHex r g b) = (r, g, b)"
  by (simp add: hexToRgb_rgbToHex_byte)

theorem hexToRgb_rgbToHex_roundtrip_witness:
  "hexToRgb (rgbToHex 255 0 10) = (255, 0, 10)"
  using hexToRgb_rgbToHex_roundtrip [of 255 0 10] by simp

section \<open>Verification: the band raster\<close>

lemma closestScan_invariant:
  assumes "closestScan (\<lambda>c. Num (h c)) cs (length pre) (m, b) = (m', b')"
    and "(pre = [] \<and> m = PInf \<and> b = 0) \<or>
         (b < length pre \<and> m = Num (h (pre ! b)) \<and> (\<forall>j<length pre. h (pre ! b) \<le> h (pre ! j))
            \<and> (\<forall>j<b. h (pre ! b) < h (pre ! j)))"
    and "pre @ cs \<noteq> []"
  shows "b' < length (pre @ cs) \<and> m' = Num (h ((pre @ cs) ! b'))
         \<and> (\<forall>j<length (pre @ cs). h ((pre @ cs) ! b') \<le> h ((pre @ cs) ! j))
         \<and> (\<forall>j<b'. h ((pre @ cs) ! b') < h ((pre @ cs) ! j))"
  using assms
proof (induction cs arbitrary: pre m b)
  case Nil
  then show ?case by auto
next
  case (Cons c cs)
  let ?pre = "pre @ [c]"
  have len: "length ?pre = Suc (length pre)" by simp
  show ?case
  proof (cases "js_less (Num (h c)) m")
    case True
    then have run: "closestScan (\<lambda>c. Num (h c)) cs (length ?pre) (Num (h c), length pre) = (m', b')"
      using Cons.prems(1) by simp
    have inv: "(?pre = [] \<and> Num (h c) = PInf \<and> length pre = 0) \<or>
         (length pre < length ?pre \<and> Num (h c) = Num (h (?pre ! length pre))
            \<and> (\<forall>j<length ?pre. h (?pre ! length pre) \<le> h (?pre ! j))
            \<and> (\<forall>j<length pre. h (?pre ! length pre) < h (?pre ! j)))"
    proof -
      from Cons.prems(2) show ?thesis
      proof
        assume "pre = [] \<and> m = PInf \<and> b = 0"
        then show ?thesis by simp
      next
        assume a: "b < length pre \<and> m = Num (h (pre ! b)) \<and> (\<forall>j<length pre. h (pre ! b) \<le> h (pre ! j))
            \<and> (\<forall>j<b. h (pre ! b) < h (pre ! j))"
        with True have lt: "h c < h (pre ! b)" by simp
        have "\<forall>j<length pre. h c < h (pre ! j)"
          using a lt by fastforce
        then show ?thesis
          by (auto simp: nth_append less_Suc_eq)
      qed
    qed
    from Cons.IH [OF run inv] show ?thesis by simp
  next
    case False
    then have run: "closestScan (\<lambda>c. Num (h c)) cs (length ?pre) (m, b) = (m', b')"
      using Cons.prems(1) by simp
    from False Cons.prems(2)
    have a: "b < length pre" "m = Num (h (pre ! b))" "\<forall>j<length pre. h (pre ! b) \<le> h (pre ! j)"
      "\<forall>j<b. h (pre ! b) < h (pre ! j)" and ge: "h (pre ! b) \<le> h c"
      by auto
    have inv: "(?pre = [] \<and> m = PInf \<and> b = 0) \<or>
         (b < length ?pre \<and> m = Num (h (?pre ! b)) \<and> (\<forall>j<length ?pre. h (?pre ! b) \<le> h (?pre ! j))
            \<and> (\<forall>j<b. h (?pre ! b) < h (?pre ! j)))"
      using a ge by (auto simp: nth_append less_Suc_eq)
    from Cons.IH [OF run inv] show ?thesis by simp
  qed
qed

lemma closestBand_nearest:
  assumes "pal \<noteq> []"
  shows "closestBand px pal < length pal
    \<and> (\<forall>m<length pal. colorDistance px (pal ! closestBand px pal) \<le> colorDistance px (pal ! m))
    \<and> (\<forall>m<closestBand px pal. colorDistance px (pal ! closestBand px pal) < colorDistance px (pal ! m))"
proof -
  obtain m' b' where r: "closestScan (\<lambda>c. Num (real_of_int (colorDistance px c))) pal (length ([]::rgb list)) (PInf, 0) = (m', b')"
    by (cases "closestScan (\<lambda>c. Num (real_of_int (colorDistance px c))) pal (length ([]::rgb list)) (PInf, 0)")
  have b: "closestBand px pal = b'"
    using r by (simp add: closestBand_def closestIndex_def)
  from closestScan_invariant [OF r] assms show ?thesis
    unfolding b by simp
qed

lemma createBandMap_length: "length (createBandMap data pal) = length data"
  by (simp add: createBandMap_def)

lemma createBandMap_bound:
  "pal \<noteq> [] \<Longrightarrow> j < length data \<Longrightarrow> createBandMap data pal ! j < length pal"
  using closestBand_nearest [of pal] by (simp add: createBandMap_def)

lemma drawLayer_returns:
  assumes "\<forall>i<length bm. bm ! i < length rp"
  shows "\<exists>ps'. drawLayer rp bm layer j ps = Inr ps'"
proof (induction ps arbitrary: j)
  case Nil
  show ?case by simp
next
  case (Cons p ps)
  from Cons.IH [of "Suc j"] obtain ps' where t: "drawLayer rp bm layer (Suc j) ps = Inr ps'"
    by blast
  show ?case
  proof (cases "j < length bm \<and> bm ! j = layer")
    case True
    then have "layer < length rp" using assms by auto
    then show ?thesis using True t by (simp add: renderColor_def)
  next
    case False
    then show ?thesis using t by auto
  qed
qed

lemma drawLayers_returns:
  assumes "\<forall>i<length bm. bm ! i < length rp"
  shows "\<exists>pd'. drawLayers rp bm layers pd = Inr pd'"
proof (induction layers arbitrary: pd)
  case Nil
  show ?case by simp
next
  case (Cons l ls)
  from drawLayer_returns [OF assms, of l 0 pd] obtain pd1 where "drawLayer rp bm l 0 pd = Inr pd1"
    by blast
  then show ?case using Cons.IH [of pd1] by simp
qed

text \<open>What \<open>processImage\<close> returns is the nearest-colour raster, whatever else it is given.\<close>

lemma processImage_bandMap:
  assumes "processImage st els = Inr (Some (bm, pv))"
  shows "\<exists>pal. suggestedPalette st = Some pal \<and> pal \<noteq> []
           \<and> bm = createBandMap (imageData st) (map hexToRgb pal)"
proof (cases "suggestedPalette st")
  case None
  then show ?thesis using assms by (simp add: processImage_def)
next
  case (Some pal)
  then have "pal \<noteq> []" using assms by (auto simp: processImage_def)
  moreover have "bm = createBandMap (imageData st) (map hexToRgb pal)"
    using assms Some \<open>pal \<noteq> []\<close>
    by (auto simp: processImage_def Let_def split: sum.splits)
  ultimately show ?thesis using Some by simp
qed

lemma processImage_returns:
  assumes "suggestedPalette st = Some pal" and "pal \<noteq> []"
    and "case currentPalette st of None \<Rightarrow> True | Some cp \<Rightarrow> length pal \<le> length cp"
  shows "\<exists>pv. processImage st els = Inr (Some (createBandMap (imageData st) (map hexToRgb pal), pv))"
proof -
  define rp where "rp = (case currentPalette st of None \<Rightarrow> pal | Some p \<Rightarrow> p)"
  define bm where "bm = createBandMap (imageData st) (map hexToRgb pal)"
  have len: "length pal \<le> length rp"
    using assms(3) by (simp add: rp_def split: option.splits)
  have bnd: "\<forall>i<length bm. bm ! i < length rp"
    using createBandMap_bound [of "map hexToRgb pal" _ "imageData st"] assms(2) len
    by (fastforce simp: bm_def createBandMap_length)
  have base: "renderColor rp 0 = Inr (hexToRgb (rp ! 0))"
    using len assms(2) by (cases pal) (auto simp: renderColor_def)
  define layers where "layers = (case currentLayer els of None \<Rightarrow> []
      | Some l \<Rightarrow> if (case singleLayerToggle els of None \<Rightarrow> False | Some c \<Rightarrow> c)
                  then (if 0 < l then [nat l] else []) else map nat [1..l])"
  obtain pd' where d: "drawLayers rp bm layers
      (replicate (width st * height st) (opaque (hexToRgb (rp ! 0)))) = Inr pd'"
    using drawLayers_returns [OF bnd] by blast
  have "processImage st els = Inr (Some (bm, pd'))"
    using assms(1,2) base d
    by (simp add: processImage_def Let_def rp_def [symmetric] bm_def [symmetric] layers_def [symmetric])
  then show ?thesis by (auto simp: bm_def)
qed

text \<open>
  Claim C1. For every pixel buffer and structural palette, and for any two render palettes,
  the band rasters of the two runs of \<open>processImage\<close> are identical: the raster is
  \<open>createBandMap\<close> of the image data and the structural palette, in which the render
  palette does not occur. The first conjunct is the comparison of any two runs that return;
  the second shows that both runs do return, with that raster, whenever each render palette
  has a colour for every band of the structural palette (or is absent). A shorter render
  palette makes the preview step read \<open>undefined\<close> and raise a TypeError.
\<close>

theorem processImage_bandMap_ignores_render_palette:
  "(\<forall>bm1 pv1 bm2 pv2.
        processImage (st\<lparr>currentPalette := cp1\<rparr>) els = Inr (Some (bm1, pv1)) \<longrightarrow>
        processImage (st\<lparr>currentPalette := cp2\<rparr>) els = Inr (Some (bm2, pv2)) \<longrightarrow>
        bm1 = bm2)
   \<and> (\<forall>pal. suggestedPalette st = Some pal \<longrightarrow> pal \<noteq> [] \<longrightarrow>
          (case cp1 of None \<Rightarrow> True | Some c \<Rightarrow> length pal \<le> length c) \<longrightarrow>
          (case cp2 of None \<Rightarrow> True | Some c \<Rightarrow> length pal \<le> length c) \<longrightarrow>
          (\<exists>pv1 pv2.
             processImage (st\<lparr>currentPalette := cp1\<rparr>) els
               = Inr (Some (createBandMap (imageData st) (map hexToRgb pal), pv1)) \<and>
             processImage (st\<lparr>currentPalette := cp2\<rparr>) els
               = Inr (Some (createBandMap (imageData st) (map hexToRgb pal), pv2))))"
proof (intro conjI allI impI)
  fix bm1 pv1 bm2 pv2
  assume a: "processImage (st\<lparr>currentPalette := cp1\<rparr>) els = Inr (Some (bm1, pv1))"
    and b: "processImage (st\<lparr>currentPalette := cp2\<rparr>) els = Inr (Some (bm2, pv2))"
  from processImage_bandMap [OF a] processImage_bandMap [OF b]
  show "bm1 = bm2" by auto
next
  fix pal
  assume p: "suggestedPalette st = Some pal" "pal \<noteq> []"
    and c1: "case cp1 of None \<Rightarrow> True | Some c \<Rightarrow> length pal \<le> length c"
    and c2: "case cp2 of None \<Rightarrow> True | Some c \<Rightarrow> length pal \<le> length c"
  from processImage_returns [of "st\<lparr>currentPalette := cp1\<rparr>" pal els] p c1
  obtain pv1 where r1: "processImage (st\<lparr>currentPalette := cp1\<rparr>) els
               = Inr (Some (createBandMap (imageData st) (map hexToRgb pal), pv1))"
    by auto
  from processImage_returns [of "st\<lparr>currentPalette := cp2\<rparr>" pal els] p c2
  obtain pv2 where r2: "processImage (st\<lparr>currentPalette := cp2\<rparr>) els
               = Inr (Some (createBandMap (imageData st) (map hexToRgb pal), pv2))"
    by auto
  from r1 r2 show "\<exists>pv1 pv2.
             processImage (st\<lparr>currentPalette := cp1\<rparr>) els
               = Inr (Some (createBandMap (imageData st) (map hexToRgb pal), pv1)) \<and>
             processImage (st\<lparr>currentPalette := cp2\<rparr>) els
               = Inr (Some (createBandMap (imageData st) (map hexToRgb pal), pv2))"
    by blast
qed

lemmas hex_eval = hexToRgb_def parseInt_def isWhiteSpace_def isRadixDigit_def digitValue_def
  digitsToNat_def toDouble_def truncToInt_def

lemma example_palette: "map hexToRgb [''#000000'', ''#ffffff''] = [(0, 0, 0), (255, 255, 255)]"
  by (simp add: hex_eval)

lemma example_bandMap:
  "createBandMap [(0, 0, 0, 255), (250, 250, 250, 255)] [(0, 0, 0), (255, 255, 255)] = [0, 1]"
  by (simp add: createBandMap_def closestBand_def closestIndex_def pixelColor_def colorDistance_def)

theorem processImage_bandMap_ignores_render_palette_witness:
  "\<exists>pv1 pv2.
     processImage \<lparr>imageData = [(0, 0, 0, 255), (250, 250, 250, 255)],
         suggestedPalette = Some [''#000000'', ''#ffffff''],
         currentPalette = Some [''#112233'', ''#445566''], width = 2, height = 1\<rparr>
       \<lparr>currentLayer = Some 1, singleLayerToggle = None\<rparr> = Inr (Some ([0, 1], pv1)) \<and>
     processImage \<lparr>imageData = [(0, 0, 0, 255), (250, 250, 250, 255)],
         suggestedPalette = Some [''#000000'', ''#ffffff''],
         currentPalette = None, width = 2, height = 1\<rparr>
       \<lparr>currentLayer = Some 1, singleLayerToggle = None\<rparr> = Inr (Some ([0, 1], pv2))"
proof -
  define st :: appState where "st = \<lparr>imageData = [(0, 0, 0, 255), (250, 250, 250, 255)],
         suggestedPalette = Some [''#000000'', ''#ffffff''],
         currentPalette = None, width = 2, height = 1\<rparr>"
  define els where "els = \<lparr>currentLayer = Some 1, singleLayerToggle = None\<rparr>"
  have s: "suggestedPalette st = Some [''#000000'', ''#ffffff'']"
    "imageData st = [(0, 0, 0, 255), (250, 250, 250, 255)]"
    by (simp_all add: st_def)
  have c: "case Some [''#112233'', ''#445566''] of None \<Rightarrow> True
           | Some c \<Rightarrow> length [''#000000'', ''#ffffff''] \<le> length c"
    "case (None :: string list option) of None \<Rightarrow> True
           | Some c \<Rightarrow> length [''#000000'', ''#ffffff''] \<le> length c"
    by simp_all
  from processImage_bandMap_ignores_render_palette
    [where st = st and els = els and ?cp1.0 = "Some [''#112233'', ''#445566'']" and ?cp2.0 = None]
  have "\<exists>pv1 pv2.
      processImage (st\<lparr>currentPalette := Some [''#112233'', ''#445566'']\<rparr>) els
        = Inr (Some (createBandMap (imageData st) (map hexToRgb [''#000000'', ''#ffffff'']), pv1)) \<and>
      processImage (st\<lparr>currentPalette := None\<rparr>) els
        = Inr (Some (createBandMap (imageData st) (map hexToRgb [''#000000'', ''#ffffff'']), pv2))"
    using s(1) c by blast
  then show ?thesis
    unfolding s(2) example_palette example_bandMap
    by (simp add: st_def els_def)
qed

text \<open>
  Claim C2. For every pixel buffer and every non-empty structural palette of \<open>N\<close>
  colours, every entry of the band raster returned by \<open>processImage\<close> lies in
  \<open>[0, N-1]\<close>; the assigned index minimises the squared RGB distance from the pixel to
  the palette colours, and every palette colour of a lower index is strictly farther away
  (among equally close colours the lowest index wins). The first conjunct shows that a raster
  is returned at all when the render palette defaults to the structural one.
\<close>

theorem processImage_bandMap_nearest:
  "suggestedPalette st = Some palette \<Longrightarrow> palette \<noteq> [] \<Longrightarrow>
   (currentPalette st = None \<longrightarrow> (\<exists>raster preview. processImage st els = Inr (Some (raster, preview))))
   \<and> (\<forall>raster preview. processImage st els = Inr (Some (raster, preview)) \<longrightarrow>
        length raster = length (imageData st) \<and>
        (\<forall>j<length (imageData st).
           raster ! j < length palette \<and>
           (\<forall>m<length palette.
              colorDistance (pixelColor (imageData st ! j)) (hexToRgb (palette ! (raster ! j)))
                \<le> colorDistance (pixelColor (imageData st ! j)) (hexToRgb (palette ! m))) \<and>
           (\<forall>m<raster ! j.
              colorDistance (pixelColor (imageData st ! j)) (hexToRgb (palette ! (raster ! j)))
                < colorDistance (pixelColor (imageData st ! j)) (hexToRgb (palette ! m)))))"
proof (intro conjI allI impI)
  assume p: "suggestedPalette st = Some palette" "palette \<noteq> []" and "currentPalette st = None"
  then show "\<exists>raster preview. processImage st els = Inr (Some (raster, preview))"
    using processImage_returns [of st palette els] by auto
next
  fix raster preview
  assume p: "suggestedPalette st = Some palette" "palette \<noteq> []"
    and r: "processImage st els = Inr (Some (raster, preview))"
  from processImage_bandMap [OF r] p
  have bm: "raster = createBandMap (imageData st) (map hexToRgb palette)" by auto
  show "length raster = length (imageData st)"
    by (simp add: bm createBandMap_length)
  fix j
  assume j: "j < length (imageData st)"
  let ?px = "pixelColor (imageData st ! j)"
  let ?pc = "map hexToRgb palette"
  have k: "raster ! j = closestBand ?px ?pc"
    using j by (simp add: bm createBandMap_def)
  have ne: "?pc \<noteq> []" using p by simp
  note n = closestBand_nearest [OF ne, of ?px, folded k]
  from n show "raster ! j < length palette" by simp
  have kl: "raster ! j < length palette" using n by simp
  {
    fix m
    assume m: "m < length palette"
    from n m kl show "colorDistance ?px (hexToRgb (palette ! (raster ! j)))
                \<le> colorDistance ?px (hexToRgb (palette ! m))"
      by auto
  }
  {
    fix m
    assume m: "m < raster ! j"
    then have "m < length palette" using kl by simp
    with n m kl show "colorDistance ?px (hexToRgb (palette ! (raster ! j)))
                < colorDistance ?px (hexToRgb (palette ! m))"
      by auto
  }
qed

theorem processImage_bandMap_nearest_witness:
  "\<exists>preview. processImage \<lparr>imageData = [(0, 0, 0, 255), (250, 250, 250, 255)],
         suggestedPalette = Some [''#000000'', ''#ffffff''],
         currentPalette = None, width = 2, height = 1\<rparr>
       \<lparr>currentLayer = Some 1, singleLayerToggle = None\<rparr> = Inr (Some ([0, 1], preview))"
proof -
  define st :: appState where "st = \<lparr>imageData = [(0, 0, 0, 255), (250, 250, 250, 255)],
         suggestedPalette = Some [''#000000'', ''#ffffff''],
         currentPalette = None, width = 2, height = 1\<rparr>"
  define els where "els = \<lparr>currentLayer = Some 1, singleLayerToggle = None\<rparr>"
  have s: "suggestedPalette st = Some [''#000000'', ''#ffffff'']"
    "[''#000000'', ''#ffffff''] \<noteq> []" "currentPalette st = None"
    by (simp_all add: st_def)
  from processImage_bandMap_nearest [OF s(1) s(2), of els] s(3)
  obtain bm pv where r: "processImage st els = Inr (Some (bm, pv))" by blast
  from processImage_bandMap [OF r] s(1)
  have "bm = createBandMap (imageData st) (map hexToRgb [''#000000'', ''#ffffff''])" by simp
  then have "bm = [0, 1]"
    unfolding example_palette by (simp add: st_def example_bandMap)
  with r show ?thesis by (auto simp: st_def els_def)
qed

section \<open>Verification: farthest-point selection\<close>

lemma bestCandidate_bound:
  "snd (bestCandidate d fp rc i (m, b)) = b
   \<or> (i \<le> snd (bestCandidate d fp rc i (m, b)) \<and> snd (bestCandidate d fp rc i (m, b)) < i + length rc)"
proof (induction rc arbitrary: i m b)
  case Nil
  then show ?case by simp
next
  case (Cons c cs)
  show ?case
  proof (cases "js_less m (minDistanceTo d c fp PInf)")
    case True
    from Cons.IH [of "Suc i" "minDistanceTo d c fp PInf" i] True
    show ?thesis by auto
  next
    case False
    from Cons.IH [of "Suc i" m b] False
    show ?thesis by auto
  qed
qed

lemma bestCandidateIndex_less:
  "rc \<noteq> [] \<Longrightarrow> bestCandidateIndex d fp rc < length rc"
  using bestCandidate_bound [of d fp rc 0 "Num (- 1)" 0]
  by (auto simp: bestCandidateIndex_def)

lemma selectionLoop_step:
  "length fp < n \<Longrightarrow> rc \<noteq> [] \<Longrightarrow>
   selectionLoop d n fp rc =
     selectionLoop d n (fp @ [rc ! bestCandidateIndex d fp rc])
       (take (bestCandidateIndex d fp rc) rc @ drop (Suc (bestCandidateIndex d fp rc)) rc)"
  by (subst selectionLoop.simps) (simp add: Let_def)

lemma selectionLoop_stop:
  "\<not> (length fp < n \<and> rc \<noteq> []) \<Longrightarrow> selectionLoop d n fp rc = fp"
  by (subst selectionLoop.simps) (simp only: if_False)

lemma selectionLoop_prefix:
  "length fp \<le> k \<Longrightarrow> selectionLoop d k fp rc = take k (selectionLoop d (Suc k) fp rc)"
proof (induction d k fp rc rule: selectionLoop.induct)
  case (1 d k fp rc)
  show ?case
  proof (cases "length fp < k \<and> rc \<noteq> []")
    case True
    let ?i = "bestCandidateIndex d fp rc"
    have "selectionLoop d k (fp @ [rc ! ?i]) (take ?i rc @ drop (Suc ?i) rc)
        = take k (selectionLoop d (Suc k) (fp @ [rc ! ?i]) (take ?i rc @ drop (Suc ?i) rc))"
      using True by (intro "1.IH") auto
    then show ?thesis
      using True by (simp add: selectionLoop_step)
  next
    case False
    then have stop: "selectionLoop d k fp rc = fp"
      by (rule selectionLoop_stop)
    show ?thesis
    proof (cases "rc = []")
      case True
      then show ?thesis using "1.prems" stop by (simp add: selectionLoop_stop)
    next
      case rc: False
      with False "1.prems" have len: "length fp = k" by simp
      let ?i = "bestCandidateIndex d fp rc"
      have "selectionLoop d (Suc k) fp rc
          = selectionLoop d (Suc k) (fp @ [rc ! ?i]) (take ?i rc @ drop (Suc ?i) rc)"
        using len rc by (simp add: selectionLoop_step)
      also have "\<dots> = fp @ [rc ! ?i]"
        using len by (simp add: selectionLoop_stop)
      finally show ?thesis using stop len by simp
    qed
  qed
qed

lemma selectionLoop_length:
  "length fp \<le> n \<Longrightarrow> length (selectionLoop d n fp rc) = min n (length fp + length rc)"
proof (induction d n fp rc rule: selectionLoop.induct)
  case (1 d n fp rc)
  show ?case
  proof (cases "length fp < n \<and> rc \<noteq> []")
    case True
    let ?i = "bestCandidateIndex d fp rc"
    have i: "?i < length rc" using True by (simp add: bestCandidateIndex_less)
    have "length (selectionLoop d n (fp @ [rc ! ?i]) (take ?i rc @ drop (Suc ?i) rc))
        = min n (length (fp @ [rc ! ?i]) + length (take ?i rc @ drop (Suc ?i) rc))"
      using True by (intro "1.IH") auto
    then show ?thesis
      using True i by (simp add: selectionLoop_step)
  next
    case False
    then show ?thesis using "1.prems" by (auto simp: selectionLoop_stop)
  qed
qed

text \<open>
  Claim C7. For two selections of sizes \<open>k\<close> and \<open>k + 1\<close> over the same candidate pool
  (hence with the same seed, its first candidate), the colours chosen by the size-\<open>k\<close> run
  are exactly the first \<open>k\<close> choices of the size-\<open>(k + 1)\<close> run, for whatever distances
  \<open>calculateDeltaE\<close> returns; and the size-\<open>k\<close> run chooses \<open>k\<close> colours when the
  pool has that many. A palette has at least one colour: the seed is pushed before the loop
  tests the size.
\<close>

theorem farthestPointSelection_incremental:
  "1 \<le> k \<Longrightarrow>
   farthestPointSelection d k pool = map_option (take k) (farthestPointSelection d (Suc k) pool)
   \<and> (\<forall>chosen. farthestPointSelection d k pool = Some chosen \<longrightarrow> length chosen = min k (length pool))"
proof (cases pool)
  case Nil
  then show ?thesis by (simp add: farthestPointSelection_def)
next
  case (Cons seed rest)
  assume k: "1 \<le> k"
  then have l: "length [seed] \<le> k" by simp
  show ?thesis
    using selectionLoop_prefix [OF l, of d rest] selectionLoop_length [OF l, of d rest] Cons
    by (simp add: farthestPointSelection_def)
qed

theorem farthestPointSelection_incremental_witness:
  "farthestPointSelection (\<lambda>a b. Num \<bar>a - b\<bar>) 3 [0, 1, 5, 10, 4 :: real] = Some [0, 10, 5]
   \<and> map_option (take 3) (farthestPointSelection (\<lambda>a b. Num \<bar>a - b\<bar>) 4 [0, 1, 5, 10, 4 :: real])
       = Some [0, 10, 5]"
proof -
  have "(1::nat) \<le> 3" by simp
  from farthestPointSelection_incremental [OF this, of "\<lambda>a b. Num \<bar>a - b\<bar>" "[0, 1, 5, 10, 4 :: real]"]
  have e: "farthestPointSelection (\<lambda>a b. Num \<bar>a - b\<bar>) 3 [0, 1, 5, 10, 4 :: real]
      = map_option (take 3) (farthestPointSelection (\<lambda>a b. Num \<bar>a - b\<bar>) (Suc 3) [0, 1, 5, 10, 4 :: real])"
    by blast
  have "farthestPointSelection (\<lambda>a b. Num \<bar>a - b\<bar>) 3 [0, 1, 5, 10, 4 :: real] = Some [0, 10, 5]"
    by (simp add: farthestPointSelection_def selectionLoop.simps [of _ 3] bestCandidateIndex_def)
  with e show ?thesis by (simp add: eval_nat_numeral)
qed

section \<open>Verification: palette uniqueness\<close>

lemma histogramAdd_keys:
  "map fst (histogramAdd add k s h) = (if k \<in> set (map fst h) then map fst h else map fst h @ [k])"
proof (induction add k s h rule: histogramAdd.induct)
  case (1 add colorKey score)
  show ?case by simp
next
  case (2 add colorKey score k impactScore pixelCount h)
  show ?case
  proof (cases "k = colorKey")
    case True
    then show ?thesis by simp
  next
    case False
    with 2 show ?thesis by (cases "colorKey \<in> set (map fst h)") simp_all
  qed
qed

lemma colorHistogram_fold_keys:
  "distinct (map fst h0) \<Longrightarrow> set (map fst h0) \<subseteq> range pixelColor \<Longrightarrow>
   distinct (map fst (foldl (\<lambda>hist j. histogramAdd add (pixelColor (f j)) (g j) hist) h0 js))
   \<and> set (map fst (foldl (\<lambda>hist j. histogramAdd add (pixelColor (f j)) (g j) hist) h0 js))
       \<subseteq> range pixelColor"
proof (induction js arbitrary: h0)
  case Nil
  then show ?case by simp
next
  case (Cons j js)
  have "distinct (map fst (histogramAdd add (pixelColor (f j)) (g j) h0))"
    and "set (map fst (histogramAdd add (pixelColor (f j)) (g j) h0)) \<subseteq> range pixelColor"
    using Cons.prems by (auto simp: histogramAdd_keys)
  from Cons.IH [OF this] show ?case by simp
qed

lemma colorHistogram_keys:
  "distinct (map fst (colorHistogram ops data w h))"
  "set (map fst (colorHistogram ops data w h)) \<subseteq> range pixelColor"
  using colorHistogram_fold_keys [of "[]" "addScore ops" "\<lambda>j. data ! j"
      "finalImpactScore ops data w h" "sampledIndices (length data)"]
  by (simp_all add: colorHistogram_def)

lemma distinct_map_sort_key:
  "distinct (map g (sort_key f xs)) = distinct (map g xs)"
  by (simp add: distinct_map)

lemma mset_remove_nth:
  "i < length rc \<Longrightarrow> mset (take i rc @ drop (Suc i) rc) + {#rc ! i#} = mset rc"
proof -
  assume "i < length rc"
  then have "rc = take i rc @ rc ! i # drop (Suc i) rc"
    by (rule id_take_nth_drop)
  then have "mset rc = mset (take i rc @ rc ! i # drop (Suc i) rc)" by simp
  then show ?thesis by simp
qed

lemma selectionLoop_mset:
  "mset (selectionLoop d n fp rc) \<subseteq># mset fp + mset rc"
proof (induction d n fp rc rule: selectionLoop.induct)
  case (1 d n fp rc)
  show ?case
  proof (cases "length fp < n \<and> rc \<noteq> []")
    case True
    let ?i = "bestCandidateIndex d fp rc"
    have i: "?i < length rc" using True by (simp add: bestCandidateIndex_less)
    have "mset (selectionLoop d n (fp @ [rc ! ?i]) (take ?i rc @ drop (Suc ?i) rc))
        \<subseteq># mset (fp @ [rc ! ?i]) + mset (take ?i rc @ drop (Suc ?i) rc)"
      using True by (intro "1.IH") auto
    also have "\<dots> = mset fp + (mset (take ?i rc @ drop (Suc ?i) rc) + {#rc ! ?i#})"
      by simp
    also have "\<dots> = mset fp + mset rc"
      by (simp only: mset_remove_nth [OF i])
    finally show ?thesis using True by (simp add: selectionLoop_step)
  next
    case False
    then show ?thesis by (simp add: selectionLoop_stop)
  qed
qed

lemma closestScan_bound:
  "snd (closestScan f cs k (m, b)) = b
   \<or> (k \<le> snd (closestScan f cs k (m, b)) \<and> snd (closestScan f cs k (m, b)) < k + length cs)"
proof (induction cs arbitrary: k m b)
  case Nil
  then show ?case by simp
next
  case (Cons c cs)
  show ?case
  proof (cases "js_less (f c) m")
    case True
    from Cons.IH [of "Suc k" "f c" k] True show ?thesis by auto
  next
    case False
    from Cons.IH [of "Suc k" m b] False show ?thesis by auto
  qed
qed

lemma closestIndex_less: "cs \<noteq> [] \<Longrightarrow> closestIndex f cs < length cs"
  using closestScan_bound [of f cs 0 PInf 0] by (auto simp: closestIndex_def)

lemma moveToFront_mset: "i < length xs \<Longrightarrow> mset (moveToFront i xs) = mset xs"
  using mset_remove_nth [of i xs] by (simp add: moveToFront_def)

lemma thinFeatureOrder_mset: "mset (thinFeatureOrder u xs) = mset xs"
proof (cases xs)
  case Nil
  then show ?thesis by (simp add: thinFeatureOrder_def)
next
  case (Cons x ds)
  define ixs where "ixs = zip [1..<Suc (length ds)] ds"
  have z: "map snd ixs = ds"
    unfolding ixs_def by (rule map_snd_zip) (simp del: upt_Suc)
  have "mset (map snd (sort_key (\<lambda>(aIndex, a). u aIndex) ixs))
      = image_mset snd (mset (sort_key (\<lambda>(aIndex, a). u aIndex) ixs))"
    by simp
  also have "\<dots> = image_mset snd (mset ixs)"
    by simp
  also have "\<dots> = mset (map snd ixs)"
    by simp
  finally have "mset (map snd (sort_key (\<lambda>(aIndex, a). u aIndex) ixs)) = mset ds"
    by (simp only: z)
  then show ?thesis
    unfolding Cons thinFeatureOrder_def ixs_def by simp
qed

lemma distinct_mset_subseteq:
  assumes "mset ys \<subseteq># mset xs" "distinct xs"
  shows "distinct ys"
proof -
  have le: "count (mset ys) a \<le> 1" for a
  proof -
    have "count (mset ys) a \<le> count (mset xs) a"
      using assms(1) by (rule mset_subset_eq_count)
    also have "\<dots> \<le> 1"
      using assms(2) by (simp add: distinct_count_atmost_1)
    finally show ?thesis .
  qed
  show ?thesis
    unfolding distinct_count_atmost_1
  proof (intro allI)
    fix a
    show "count (mset ys) a = (if a \<in> set ys then 1 else 0)"
    proof (cases "a \<in> set ys")
      case True
      then have "0 < count (mset ys) a" by (rule count_mset_gt_0)
      with le [of a] have "count (mset ys) a = 1" by linarith
      with True show ?thesis by (simp only: if_True)
    next
      case False
      then show ?thesis by simp
    qed
  qed
qed

lemma getImpactfulColors_distinct:
  "distinct (getImpactfulColors ops data w h numColors)
   \<and> set (getImpactfulColors ops data w h numColors) \<subseteq> range pixelColor"
proof -
  define allColors where "allColors = colorHistogram ops data w h"
  define candidates where "candidates =
      take (min (numColors * 4) 64) (sort_key (\<lambda>(c, impactScore, pixelCount). - impactScore) allColors)"
  have d0: "distinct (map fst allColors)" and s0: "set (map fst allColors) \<subseteq> range pixelColor"
    unfolding allColors_def by (rule colorHistogram_keys)+
  have "distinct (map fst (sort_key (\<lambda>(c, impactScore, pixelCount). - impactScore) allColors))"
    using d0 by (simp only: distinct_map_sort_key)
  then have d1: "distinct (map fst candidates)"
    unfolding candidates_def by (simp only: take_map [symmetric] distinct_take)
  have "set candidates \<subseteq> set allColors"
    unfolding candidates_def using set_take_subset [of _ "sort_key (\<lambda>(c, impactScore, pixelCount). - impactScore) allColors"]
    by auto
  then have s1: "set (map fst candidates) \<subseteq> range pixelColor"
    using s0 by auto
  show ?thesis
  proof (cases "length candidates \<le> numColors")
    case True
    then have "getImpactfulColors ops data w h numColors = map fst candidates"
      by (simp add: getImpactfulColors_def Let_def candidates_def allColors_def)
    then show ?thesis using d1 s1 by simp
  next
    case False
    then have ne: "candidates \<noteq> []" by auto
    define finalPalette where "finalPalette =
        selectionLoop (\<lambda>a b. deltaE ops (fst a) (fst b)) numColors [hd candidates] (tl candidates)"
    define finalPaletteRGB where "finalPaletteRGB = map fst finalPalette"
    define reordered where "reordered =
        moveToFront (closestIndex (backgroundDeltaE ops data w h) finalPaletteRGB) finalPaletteRGB"
    have res: "getImpactfulColors ops data w h numColors
        = thinFeatureOrder (analyzeColorUsage (createBandMap data reordered)) reordered"
      using False
      by (simp add: getImpactfulColors_def Let_def candidates_def allColors_def
          reordered_def finalPaletteRGB_def finalPalette_def)
    have "mset finalPalette \<subseteq># mset [hd candidates] + mset (tl candidates)"
      unfolding finalPalette_def by (rule selectionLoop_mset)
    also have "\<dots> = mset candidates"
      using ne by (cases candidates) simp_all
    finally have sub: "mset finalPalette \<subseteq># mset candidates" .
    then have "image_mset fst (mset finalPalette) \<subseteq># image_mset fst (mset candidates)"
      by (rule image_mset_subseteq_mono)
    then have sub2: "mset finalPaletteRGB \<subseteq># mset (map fst candidates)"
      by (simp add: finalPaletteRGB_def)
    have fne: "finalPaletteRGB \<noteq> []"
    proof -
      have "length finalPalette = min numColors (length [hd candidates] + length (tl candidates))
            \<or> numColors < length [hd candidates]"
        unfolding finalPalette_def using selectionLoop_length [of "[hd candidates]" numColors] by auto
      moreover have "numColors < length [hd candidates] \<Longrightarrow> finalPalette = [hd candidates]"
        unfolding finalPalette_def by (simp add: selectionLoop_stop)
      ultimately have "finalPalette \<noteq> []" using False ne by (cases "numColors = 0") auto
      then show ?thesis by (simp add: finalPaletteRGB_def)
    qed
    have "mset reordered = mset finalPaletteRGB"
      unfolding reordered_def using closestIndex_less [OF fne] by (rule moveToFront_mset)
    then have m: "mset (getImpactfulColors ops data w h numColors) \<subseteq># mset (map fst candidates)"
      using sub2 by (simp add: res thinFeatureOrder_mset)
    have "distinct (getImpactfulColors ops data w h numColors)"
      using m d1 by (rule distinct_mset_subseteq)
    moreover have "set (getImpactfulColors ops data w h numColors) \<subseteq> set (map fst candidates)"
      using set_mset_mono [OF m] by simp
    ultimately show ?thesis using s1 by blast
  qed
qed

lemma rgbToHex_inj:
  assumes "c1 \<in> range pixelColor" "c2 \<in> range pixelColor"
    and "(case c1 of (r, g, b) \<Rightarrow> rgbToHex r g b) = (case c2 of (r, g, b) \<Rightarrow> rgbToHex r g b)"
  shows "c1 = c2"
proof -
  have rt: "hexToRgb (case c of (r, g, b) \<Rightarrow> rgbToHex r g b) = c" if "c \<in> range pixelColor" for c
  proof -
    from that obtain p where "c = pixelColor p" by blast
    moreover obtain r g b a where "p = (r, g, b, a)" by (cases p)
    ultimately have c: "c = (uint r, uint g, uint b)" by (simp add: pixelColor_def)
    have "uint r < 2 ^ 8" "uint g < 2 ^ 8" "uint b < 2 ^ 8"
      using uint_lt2p [of r] uint_lt2p [of g] uint_lt2p [of b] by simp_all
    then have "uint r \<le> 255" "uint g \<le> 255" "uint b \<le> 255" by simp_all
    then have "hexToRgb (rgbToHex (uint r) (uint g) (uint b)) = (uint r, uint g, uint b)"
      by (intro hexToRgb_rgbToHex_byte) simp_all
    then show ?thesis
      by (simp only: c prod.case)
  qed
  from assms(3) have "hexToRgb (case c1 of (r, g, b) \<Rightarrow> rgbToHex r g b)
      = hexToRgb (case c2 of (r, g, b) \<Rightarrow> rgbToHex r g b)"
    by (rule arg_cong)
  then show ?thesis
    by (simp only: rt [OF assms(1)] rt [OF assms(2)])
qed

lemma ensureUniqueLoop_distinct_input:
  "distinct colors \<Longrightarrow> set colors \<inter> set usedColors = {} \<Longrightarrow>
   ensureUniqueLoop rnd t colors img uniqueColors usedColors = uniqueColors @ colors"
proof (induction colors arbitrary: uniqueColors usedColors)
  case Nil
  then show ?case by simp
next
  case (Cons color colors)
  then have "color \<notin> set usedColors" by simp
  moreover have "ensureUniqueLoop rnd t colors img (uniqueColors @ [color]) (setAdd color usedColors)
      = (uniqueColors @ [color]) @ colors"
    using Cons.prems by (intro Cons.IH) (auto simp: setAdd_def)
  ultimately show ?case by simp
qed

text \<open>
  Claim C3. For every input image and requested band count, the palette returned by
  \<open>getSuggestedColors\<close> contains no two identical hex strings, whatever the random
  source and the floating-point scores are: the candidates are distinct keys of the
  histogram, selection and reordering only permute a part of them, \<open>rgbToHex\<close> is
  injective on byte triples, and the uniqueness pass leaves a duplicate-free list unchanged.
\<close>

theorem getSuggestedColors_no_duplicates:
  "distinct (getSuggestedColors ops rnd img bands w h)"
proof -
  define dominantColors where
    "dominantColors = getImpactfulColors ops (preprocessImageData img) w h bands"
  define hexColors where
    "hexColors = map (\<lambda>c. case c of (r, g, b) \<Rightarrow> rgbToHex r g b) dominantColors"
  have d: "distinct dominantColors" and s: "set dominantColors \<subseteq> range pixelColor"
    unfolding dominantColors_def using getImpactfulColors_distinct by blast+
  have "inj_on (\<lambda>c. case c of (r, g, b) \<Rightarrow> rgbToHex r g b) (set dominantColors)"
    using s by (intro inj_onI rgbToHex_inj) auto
  with d have dh: "distinct hexColors"
    unfolding hexColors_def by (simp add: distinct_map)
  have "getSuggestedColors ops rnd img bands w h = ensureUniqueLoop rnd 0 hexColors img [] []"
    by (simp add: getSuggestedColors_def ensureUniqueColors_def Let_def hexColors_def dominantColors_def)
  also have "\<dots> = [] @ hexColors"
    using dh by (intro ensureUniqueLoop_distinct_input) simp_all
  finally show ?thesis using dh by simp
qed

text \<open>
  The uniqueness pass itself is not what makes the palette duplicate-free: when no sampled
  pixel is far enough from the used colours, \<open>findDistinctColor\<close> falls back to a random
  colour that it does not compare with the used ones. \<open>getSuggestedColors\<close> never reaches
  that path, because the colours it passes on are distinct already.
\<close>

lemma findDistinctAttempts_exhausted:
  "img \<noteq> [] \<Longrightarrow> \<forall>p\<in>set img. \<not> isDistinct (pixelColor p) usedColors \<Longrightarrow>
   findDistinctAttempts rnd t n usedColors img =
     (rgbToHex (int (randomBelow rnd (t + n) 256)) (int (randomBelow rnd (t + n + 1) 256))
        (int (randomBelow rnd (t + n + 2) 256)), t + n + 3)"
proof (induction n arbitrary: t)
  case 0
  show ?case by (simp add: Let_def)
next
  case (Suc n)
  have "randomBelow rnd t (length img) < length img"
    using Suc.prems(1) by (simp add: randomBelow_def)
  then have "img ! randomBelow rnd t (length img) \<in> set img" by simp
  then have "\<not> isDistinct (pixelColor (img ! randomBelow rnd t (length img))) usedColors"
    using Suc.prems(2) by blast
  then show ?case
    using Suc.prems Suc.IH [of "Suc t"] by (simp add: Let_def)
qed

lemma ensureUniqueColors_fallback_repeats:
  "ensureUniqueColors (\<lambda>t. 0) [''#000000'', ''#000000''] [(0, 0, 0, 255)]
     = [''#000000'', ''#000000'']"
proof -
  have h: "hexToRgb ''#000000'' = (0, 0, 0)"
    by (simp add: hexToRgb_def parseInt_def isWhiteSpace_def isRadixDigit_def digitValue_def
        digitsToNat_def toDouble_def truncToInt_def)
  have nd: "\<forall>p\<in>set [(0, 0, 0, 255) :: pixel]. \<not> isDistinct (pixelColor p) [''#000000'']"
    by (simp add: h pixelColor_def colorDistance_def)
  have z: "rgbToHex 0 0 0 = ''#000000''"
    by (simp add: rgbToHex_def padStart2_def toString16_def hexDigitChar_def)
  have "findDistinctColor (\<lambda>t. 0) 0 [''#000000''] [(0, 0, 0, 255)] = (''#000000'', 103)"
    unfolding findDistinctColor_def
    using findDistinctAttempts_exhausted [OF _ nd, of "\<lambda>t. 0" 0 100]
    by (simp add: randomBelow_def z)
  then show ?thesis
    by (simp add: ensureUniqueColors_def setAdd_def)
qed

section \<open>Verification: filament matching\<close>

lemma assignMatch_invariant:
  assumes inv: "greedyInvariant fc n g st" and s: "s < n" and f: "f < length fc"
  shows "\<exists>g'. greedyInvariant fc n g' (assignMatch fc st (s, f, d))"
proof (cases "s \<in> usedSuggestions st \<or> f \<in> usedFilaments st")
  case True
  then show ?thesis using inv by (auto simp: assignMatch_def)
next
  case False
  let ?st = "st\<lparr>matchedPalette := (matchedPalette st)[s := Some (fc ! f)],
                usedSuggestions := insert s (usedSuggestions st),
                usedFilaments := insert f (usedFilaments st)\<rparr>"
  have eq: "assignMatch fc st (s, f, d) = ?st"
    using False by (simp add: assignMatch_def)
  from inv have len: "length (matchedPalette st) = n"
    and us: "usedSuggestions st \<subseteq> {..<n}" and uf: "usedFilaments st \<subseteq> {..<length fc}"
    and inj: "inj_on g (usedSuggestions st)" and img: "g ` usedSuggestions st = usedFilaments st"
    and val: "\<forall>s\<in>usedSuggestions st. matchedPalette st ! s = Some (fc ! g s)"
    and non: "\<forall>s<n. s \<notin> usedSuggestions st \<longrightarrow> matchedPalette st ! s = None"
    by (simp_all add: greedyInvariant_def)
  let ?g = "g(s := f)"
  have g_old: "?g x = g x" if "x \<in> usedSuggestions st" for x
    using that False by auto
  have "inj_on ?g (insert s (usedSuggestions st))"
  proof (rule inj_onI)
    fix x y
    assume x: "x \<in> insert s (usedSuggestions st)" and y: "y \<in> insert s (usedSuggestions st)"
      and e: "?g x = ?g y"
    show "x = y"
    proof (cases "x = s")
      case xs: True
      show ?thesis
      proof (rule ccontr)
        assume "x \<noteq> y"
        with xs y have yu: "y \<in> usedSuggestions st" by auto
        then have "g y \<in> usedFilaments st" using img by blast
        moreover have "g y = f" using e xs yu g_old [OF yu] by simp
        ultimately show False using False by simp
      qed
    next
      case xs: False
      with x have xu: "x \<in> usedSuggestions st" by simp
      show ?thesis
      proof (cases "y = s")
        case True
        have "g x \<in> usedFilaments st" using img xu by blast
        moreover have "g x = f" using e True g_old [OF xu] by simp
        ultimately show ?thesis using False by simp
      next
        case ys: False
        with y have yu: "y \<in> usedSuggestions st" by simp
        from e have "g x = g y" using g_old [OF xu] g_old [OF yu] by simp
        with inj xu yu show ?thesis by (auto dest: inj_onD)
      qed
    qed
  qed
  moreover have "?g ` insert s (usedSuggestions st) = insert f (usedFilaments st)"
  proof -
    have "s \<notin> usedSuggestions st" using False by simp
    then have a: "?g ` usedSuggestions st = g ` usedSuggestions st"
      by (simp only: fun_upd_image if_False)
    show ?thesis by (simp only: image_insert fun_upd_same a img)
  qed
  moreover have "\<forall>x\<in>insert s (usedSuggestions st).
      (matchedPalette st)[s := Some (fc ! f)] ! x = Some (fc ! ?g x)"
    using val len s by (auto simp: nth_list_update)
  moreover have "\<forall>x<n. x \<notin> insert s (usedSuggestions st) \<longrightarrow>
      (matchedPalette st)[s := Some (fc ! f)] ! x = None"
    using non by (auto simp: nth_list_update)
  ultimately have "greedyInvariant fc n ?g ?st"
    using len us uf s f by (simp add: greedyInvariant_def)
  then show ?thesis unfolding eq by blast
qed

lemma assignMatch_mono:
  "usedSuggestions st \<subseteq> usedSuggestions (assignMatch fc st mt)"
  "usedFilaments st \<subseteq> usedFilaments (assignMatch fc st mt)"
  by (auto simp: assignMatch_def split: prod.splits)

lemma assignMatch_covers:
  "s \<in> usedSuggestions (assignMatch fc st (s, f, d)) \<or> f \<in> usedFilaments (assignMatch fc st (s, f, d))"
  by (auto simp: assignMatch_def)

lemma greedy_mono:
  "usedSuggestions st \<subseteq> usedSuggestions (foldl (assignMatch fc) st ms)
   \<and> usedFilaments st \<subseteq> usedFilaments (foldl (assignMatch fc) st ms)"
proof (induction ms arbitrary: st)
  case Nil
  show ?case by simp
next
  case (Cons mt ms)
  from Cons.IH [of "assignMatch fc st mt"] assignMatch_mono [of st fc mt]
  show ?case by auto
qed

lemma greedy_covers:
  "(s, f, d) \<in> set ms \<Longrightarrow>
   s \<in> usedSuggestions (foldl (assignMatch fc) st ms) \<or> f \<in> usedFilaments (foldl (assignMatch fc) st ms)"
proof (induction ms arbitrary: st)
  case Nil
  then show ?case by simp
next
  case (Cons mt ms)
  show ?case
  proof (cases "mt = (s, f, d)")
    case True
    from assignMatch_covers [of s fc st f d] greedy_mono [of "assignMatch fc st (s, f, d)" fc ms]
    show ?thesis unfolding True by auto
  next
    case False
    with Cons.prems have "(s, f, d) \<in> set ms" by simp
    from Cons.IH [OF this, of "assignMatch fc st mt"] show ?thesis by simp
  qed
qed

lemma greedy_invariant:
  "\<exists>g. greedyInvariant fc n g st \<Longrightarrow> \<forall>(s, f, d)\<in>set ms. s < n \<and> f < length fc \<Longrightarrow>
   \<exists>g. greedyInvariant fc n g (foldl (assignMatch fc) st ms)"
proof (induction ms arbitrary: st)
  case Nil
  then show ?case by simp
next
  case (Cons mt ms)
  obtain s f d where mt: "mt = (s, f, d)" by (cases mt)
  from Cons.prems(1) obtain g where "greedyInvariant fc n g st" by blast
  moreover have "s < n" "f < length fc" using Cons.prems(2) mt by auto
  ultimately have "\<exists>g'. greedyInvariant fc n g' (assignMatch fc st mt)"
    unfolding mt by (rule assignMatch_invariant)
  moreover have "\<forall>(s, f, d)\<in>set ms. s < n \<and> f < length fc"
    using Cons.prems(2) by simp
  ultimately show ?case using Cons.IH by simp
qed

lemma allMatches_set:
  "set (allMatches pal fc) =
     {(s, f, colorDistance (hexToRgb (pal ! s)) (hexToRgb (fc ! f))) | s f. s < length pal \<and> f < length fc}"
  by (auto simp: allMatches_def)

lemma greedy_result:
  fixes pal fc :: "string list"
  defines "st \<equiv> greedyPass pal fc"
  shows "\<exists>g. greedyInvariant fc (length pal) g st
           \<and> (length pal \<le> length fc \<longrightarrow> usedSuggestions st = {..<length pal})
           \<and> (length fc < length pal \<longrightarrow> usedFilaments st = {..<length fc})"
proof -
  let ?n = "length pal" and ?m = "length fc"
  let ?ms = "sort_key (\<lambda>(suggestedIndex, filamentIndex, distance). distance) (allMatches pal fc)"
  have set_ms: "set ?ms = set (allMatches pal fc)" by simp
  have init: "\<exists>g. greedyInvariant fc ?n g
      \<lparr>matchedPalette = replicate ?n None, usedFilaments = {}, usedSuggestions = {}\<rparr>"
    by (simp add: greedyInvariant_def)
  have rng: "\<forall>(s, f, d)\<in>set ?ms. s < ?n \<and> f < ?m"
    unfolding set_ms allMatches_set by auto
  from greedy_invariant [OF init rng] obtain g where inv: "greedyInvariant fc ?n g st"
    unfolding st_def greedyPass_def by blast
  then have us: "usedSuggestions st \<subseteq> {..<?n}" and uf: "usedFilaments st \<subseteq> {..<?m}"
    and inj: "inj_on g (usedSuggestions st)" and img: "g ` usedSuggestions st = usedFilaments st"
    by (simp_all add: greedyInvariant_def)
  have fin: "finite (usedSuggestions st)" "finite (usedFilaments st)"
    using us uf by (auto intro: finite_subset)
  have card_eq: "card (usedFilaments st) = card (usedSuggestions st)"
    using card_image [OF inj] img by simp
  have cover: "s \<in> usedSuggestions st \<or> f \<in> usedFilaments st" if "s < ?n" "f < ?m" for s f
  proof -
    have "(s, f, colorDistance (hexToRgb (pal ! s)) (hexToRgb (fc ! f))) \<in> set ?ms"
      unfolding set_ms allMatches_set using that by blast
    from greedy_covers [OF this] show ?thesis unfolding st_def greedyPass_def .
  qed
  have a: "usedSuggestions st = {..<?n}" if le: "?n \<le> ?m"
  proof (rule ccontr)
    assume "usedSuggestions st \<noteq> {..<?n}"
    with us obtain s0 where s0: "s0 < ?n" "s0 \<notin> usedSuggestions st" by auto
    then have "\<forall>f<?m. f \<in> usedFilaments st" using cover by blast
    with uf have "usedFilaments st = {..<?m}" by auto
    then have c: "card (usedSuggestions st) = ?m" using card_eq by simp
    have "usedSuggestions st \<subseteq> {..<?n} - {s0}" using us s0 by auto
    then have "card (usedSuggestions st) \<le> card ({..<?n} - {s0})"
      by (intro card_mono) auto
    also have "\<dots> = ?n - 1" using s0 by simp
    finally show False using c le s0 by simp
  qed
  have b: "usedFilaments st = {..<?m}" if lt: "?m < ?n"
  proof (rule ccontr)
    assume "usedFilaments st \<noteq> {..<?m}"
    with uf obtain f0 where f0: "f0 < ?m" "f0 \<notin> usedFilaments st" by auto
    then have "\<forall>s<?n. s \<in> usedSuggestions st" using cover by blast
    with us have "usedSuggestions st = {..<?n}" by auto
    then have c: "card (usedFilaments st) = ?n" using card_eq by simp
    have "usedFilaments st \<subseteq> {..<?m} - {f0}" using uf f0 by auto
    then have "card (usedFilaments st) \<le> card ({..<?m} - {f0})"
      by (intro card_mono) auto
    also have "\<dots> = ?m - 1" using f0 by simp
    finally show False using c lt f0 by simp
  qed
  from inv a b show ?thesis by blast
qed

lemma fill_unchanged:
  "k \<le> length mp \<Longrightarrow> \<forall>i<length mp. \<not> isFalsy (mp ! i) \<Longrightarrow>
   foldl (fillStep fc) (mp, used) [0..<k] = (mp, used)"
  by (induction k) (simp_all add: fillStep_def)

lemma find_unused_none:
  "{..<length fc} \<subseteq> used \<Longrightarrow> find (\<lambda>j. j \<notin> used) [0..<length fc] = None"
  by (auto simp: find_None_iff)

lemma fill_exhausted:
  assumes "{..<length fc} \<subseteq> used"
  shows "k \<le> length mp \<Longrightarrow>
     \<exists>mp'. foldl (fillStep fc) (mp, used) [0..<k] = (mp', used) \<and> length mp' = length mp
       \<and> (\<forall>i<length mp. mp' ! i = (if i < k \<and> isFalsy (mp ! i) then Some (fc ! 0) else mp ! i))"
proof (induction k)
  case 0
  show ?case by simp
next
  case (Suc k)
  then obtain mp' where r: "foldl (fillStep fc) (mp, used) [0..<k] = (mp', used)"
    and l: "length mp' = length mp"
    and v: "\<forall>i<length mp. mp' ! i = (if i < k \<and> isFalsy (mp ! i) then Some (fc ! 0) else mp ! i)"
    by auto
  have k: "k < length mp" using Suc.prems by simp
  then have mk: "mp' ! k = mp ! k" using v by simp
  have step: "fillStep fc (mp', used) k =
      (if isFalsy (mp ! k) then mp'[k := Some (fc ! 0)] else mp', used)"
    by (simp add: fillStep_def find_unused_none [OF assms] mk)
  show ?case
  proof (cases "isFalsy (mp ! k)")
    case True
    then show ?thesis using r l v k step
      by (auto simp: nth_list_update less_Suc_eq)
  next
    case False
    then show ?thesis using r l v k step
      by (auto simp: less_Suc_eq)
  qed
qed

lemma example_colors:
  "hexToRgb ''#ff0000'' = (255, 0, 0)" "hexToRgb ''#00ff00'' = (0, 255, 0)"
  "hexToRgb ''#0000ff'' = (0, 0, 255)"
  by (simp_all add: hex_eval and_255_int drop_bit_eq_div)

lemma filter_nth_indices:
  "filter P xs = map ((!) xs) (filter (\<lambda>i. P (xs ! i)) [0..<length xs])"
proof -
  have "filter P xs = filter P (map ((!) xs) [0..<length xs])" by (simp only: map_nth)
  also have "\<dots> = map ((!) xs) (filter (P \<circ> (!) xs) [0..<length xs])" by (rule filter_map)
  finally show ?thesis by (simp add: comp_def)
qed

text \<open>
  Claim C4, as amended. For every call of the filament matcher with a non-empty inventory
  whose colours are pairwise distinct, non-empty strings: the output has one entry per palette
  colour; if the inventory has at least as many entries as the palette, no colour occurs twice
  in the output, and every entry is an inventory colour; if it has fewer entries, the colours
  of the output are exactly the inventory colours, so all of them are used, and they are used
  before any repeat: the greedy pass, which runs before the fill loop, assigns as many palette
  slots as there are inventory entries, all with different colours, and the fill loop keeps
  every slot the greedy pass assigned. The matcher keeps filament indices apart, not colours:
  two filaments of one colour may both be matched, as the counterexample below shows, and an
  empty colour string counts as unmatched.
\<close>

theorem matchToPalette_injective_on_distinct_inventory:
  "fs \<noteq> [] \<Longrightarrow> distinct (map color fs) \<Longrightarrow> \<forall>f\<in>set fs. color f \<noteq> [] \<Longrightarrow>
   length (matchToPalette pal (Some fs)) = length pal
   \<and> (length fs \<ge> length pal \<longrightarrow>
        distinct (matchToPalette pal (Some fs))
        \<and> set (matchToPalette pal (Some fs)) \<subseteq> Some ` color ` set fs)
   \<and> (length fs < length pal \<longrightarrow>
        set (matchToPalette pal (Some fs)) = Some ` color ` set fs
        \<and> distinct (filter (\<lambda>v. v \<noteq> None) (matchedPalette (greedyPass pal (map color fs))))
        \<and> length (filter (\<lambda>v. v \<noteq> None) (matchedPalette (greedyPass pal (map color fs)))) = length fs
        \<and> (\<forall>i<length pal. matchedPalette (greedyPass pal (map color fs)) ! i \<noteq> None \<longrightarrow>
               matchToPalette pal (Some fs) ! i = matchedPalette (greedyPass pal (map color fs)) ! i))"
proof -
  assume ne: "fs \<noteq> []" and dist: "distinct (map color fs)" and nonempty: "\<forall>f\<in>set fs. color f \<noteq> []"
  define fc where "fc = map color fs"
  define st where "st = greedyPass pal fc"
  let ?n = "length pal" and ?m = "length fc"
  let ?mp = "matchedPalette st"
  have out: "matchToPalette pal (Some fs)
      = fst (foldl (fillStep fc) (?mp, usedFilaments st) [0..<?n])"
    using ne by (simp add: matchToPalette_def Let_def fc_def st_def)
  have m: "?m = length fs" "0 < ?m" using ne by (simp_all add: fc_def)
  have dfc: "distinct fc" using dist by (simp add: fc_def)
  have nfc: "fc ! j \<noteq> []" if "j < ?m" for j
    using nonempty that by (simp add: fc_def)
  have sfc: "set fc = color ` set fs" by (simp add: fc_def)
  from greedy_result [where pal = pal and fc = fc] obtain g where inv: "greedyInvariant fc ?n g st"
    and full_s: "?n \<le> ?m \<longrightarrow> usedSuggestions st = {..<?n}"
    and full_f: "?m < ?n \<longrightarrow> usedFilaments st = {..<?m}"
    unfolding st_def by blast
  from inv have len: "length ?mp = ?n"
    and us: "usedSuggestions st \<subseteq> {..<?n}" and uf: "usedFilaments st \<subseteq> {..<?m}"
    and inj: "inj_on g (usedSuggestions st)" and img: "g ` usedSuggestions st = usedFilaments st"
    and val: "\<forall>s\<in>usedSuggestions st. ?mp ! s = Some (fc ! g s)"
    and non: "\<forall>s<?n. s \<notin> usedSuggestions st \<longrightarrow> ?mp ! s = None"
    by (simp_all add: greedyInvariant_def)
  have gm: "g s < ?m" if "s \<in> usedSuggestions st" for s
    using img uf that by blast
  have truthy: "\<not> isFalsy (?mp ! s)" if "s \<in> usedSuggestions st" for s
    using val that nfc [OF gm [OF that]] by (simp add: isFalsy_def)
  have differ: "?mp ! a \<noteq> ?mp ! b"
    if "a \<in> usedSuggestions st" "b \<in> usedSuggestions st" "a \<noteq> b" for a b
  proof -
    have "g a \<noteq> g b" using inj that by (auto dest: inj_onD)
    then have "fc ! g a \<noteq> fc ! g b"
      using dfc gm [OF that(1)] gm [OF that(2)] by (simp add: nth_eq_iff_index_eq)
    then show ?thesis using val that by simp
  qed
  have assigned: "{i. i < ?n \<and> ?mp ! i \<noteq> None} = usedSuggestions st"
  proof (intro equalityI subsetI)
    fix i
    assume "i \<in> {i. i < ?n \<and> ?mp ! i \<noteq> None}"
    then have i: "i < ?n" "?mp ! i \<noteq> None" by simp_all
    show "i \<in> usedSuggestions st"
    proof (rule ccontr)
      assume "i \<notin> usedSuggestions st"
      with non i(1) have "?mp ! i = None" by simp
      with i(2) show False by simp
    qed
  next
    fix i
    assume i: "i \<in> usedSuggestions st"
    with us have "i \<in> {..<?n}" by (rule_tac subsetD)
    then have "i < ?n" by simp
    moreover from val i have "?mp ! i = Some (fc ! g i)" by (rule_tac bspec)
    then have "?mp ! i \<noteq> None" by simp
    ultimately show "i \<in> {i. i < ?n \<and> ?mp ! i \<noteq> None}" by simp
  qed
  have part1: "distinct (matchToPalette pal (Some fs))
        \<and> set (matchToPalette pal (Some fs)) \<subseteq> Some ` color ` set fs
        \<and> length (matchToPalette pal (Some fs)) = ?n" if le: "?n \<le> ?m"
  proof -
    from full_s le have all: "usedSuggestions st = {..<?n}" by simp
    have "\<forall>i<length ?mp. \<not> isFalsy (?mp ! i)"
      using truthy all len by simp
    then have o: "matchToPalette pal (Some fs) = ?mp"
      unfolding out using fill_unchanged [of ?n ?mp fc "usedFilaments st"] len by simp
    have "distinct ?mp"
      unfolding distinct_conv_nth using differ all len by simp
    moreover have "set ?mp \<subseteq> Some ` color ` set fs"
    proof
      fix x
      assume "x \<in> set ?mp"
      then obtain i where i: "i < length ?mp" "x = ?mp ! i" by (auto simp: in_set_conv_nth)
      then have iu: "i \<in> usedSuggestions st" using all len by simp
      then have "x = Some (fc ! g i)" using val i by simp
      moreover have "fc ! g i \<in> set fc" using gm [OF iu] by simp
      ultimately show "x \<in> Some ` color ` set fs" using sfc by blast
    qed
    ultimately show ?thesis using o len by simp
  qed
  have part2: "set (matchToPalette pal (Some fs)) = Some ` color ` set fs
        \<and> length (matchToPalette pal (Some fs)) = ?n
        \<and> distinct (filter (\<lambda>v. v \<noteq> None) ?mp)
        \<and> length (filter (\<lambda>v. v \<noteq> None) ?mp) = ?m
        \<and> (\<forall>i<?n. ?mp ! i \<noteq> None \<longrightarrow> matchToPalette pal (Some fs) ! i = ?mp ! i)" if lt: "?m < ?n"
  proof -
    from full_f lt have all: "usedFilaments st = {..<?m}" by simp
    then have "{..<?m} \<subseteq> usedFilaments st" by simp
    from fill_exhausted [OF this, of ?n ?mp] len
    obtain mp' where r: "foldl (fillStep fc) (?mp, usedFilaments st) [0..<?n] = (mp', usedFilaments st)"
      and l: "length mp' = ?n"
      and v: "\<forall>i<?n. mp' ! i = (if isFalsy (?mp ! i) then Some (fc ! 0) else ?mp ! i)"
      by auto
    have o: "matchToPalette pal (Some fs) = mp'" unfolding out r by simp
    have "set mp' = Some ` set fc"
    proof (intro equalityI subsetI)
      fix x
      assume "x \<in> set mp'"
      then obtain i where i: "i < ?n" "x = mp' ! i" using l by (auto simp: in_set_conv_nth)
      show "x \<in> Some ` set fc"
      proof (cases "i \<in> usedSuggestions st")
        case True
        then have "x = Some (fc ! g i)" using v i truthy [OF True] val by simp
        then show ?thesis using gm [OF True] by simp
      next
        case False
        then have "?mp ! i = None" using non i by simp
        then have "x = Some (fc ! 0)" using v i by (simp add: isFalsy_def)
        then show ?thesis using m(2) by simp
      qed
    next
      fix x
      assume "x \<in> Some ` set fc"
      then obtain j where j: "j < ?m" "x = Some (fc ! j)" by (auto simp: in_set_conv_nth)
      then have "j \<in> g ` usedSuggestions st" using all img by simp
      then obtain s where s: "s \<in> usedSuggestions st" "g s = j" by blast
      then have sn: "s < ?n" using us by auto
      have "mp' ! s = Some (fc ! j)" using v sn truthy [OF s(1)] val s by simp
      then show "x \<in> set mp'" using j sn l by (metis nth_mem)
    qed
    moreover have "\<forall>i<?n. ?mp ! i \<noteq> None \<longrightarrow> mp' ! i = ?mp ! i"
    proof (intro allI impI)
      fix i
      assume i: "i < ?n" "?mp ! i \<noteq> None"
      then have "i \<in> {i. i < ?n \<and> ?mp ! i \<noteq> None}" by simp
      then have "i \<in> usedSuggestions st" by (simp only: assigned)
      from truthy [OF this] have "\<not> isFalsy (?mp ! i)" .
      moreover from v i(1) have "mp' ! i = (if isFalsy (?mp ! i) then Some (fc ! 0) else ?mp ! i)"
        by simp
      ultimately show "mp' ! i = ?mp ! i" by simp
    qed
    moreover have "length (filter (\<lambda>v. v \<noteq> None) ?mp) = ?m"
    proof -
      have "length (filter (\<lambda>v. v \<noteq> None) ?mp) = card {i. i < length ?mp \<and> ?mp ! i \<noteq> None}"
        by (rule length_filter_conv_card)
      also have "\<dots> = card (usedSuggestions st)" by (simp only: len assigned)
      also have "\<dots> = card (usedFilaments st)" using card_image [OF inj] img by simp
      finally show ?thesis using all by simp
    qed
    moreover have "distinct (filter (\<lambda>v. v \<noteq> None) ?mp)"
    proof -
      have "inj_on ((!) ?mp) (set (filter (\<lambda>i. ?mp ! i \<noteq> None) [0..<length ?mp]))"
      proof (rule inj_onI)
        fix a b
        assume a: "a \<in> set (filter (\<lambda>i. ?mp ! i \<noteq> None) [0..<length ?mp])"
          and b: "b \<in> set (filter (\<lambda>i. ?mp ! i \<noteq> None) [0..<length ?mp])"
          and e: "?mp ! a = ?mp ! b"
        from a have "a \<in> {i. i < ?n \<and> ?mp ! i \<noteq> None}" by (simp add: len)
        then have ua: "a \<in> usedSuggestions st" by (simp only: assigned)
        from b have "b \<in> {i. i < ?n \<and> ?mp ! i \<noteq> None}" by (simp add: len)
        then have ub: "b \<in> usedSuggestions st" by (simp only: assigned)
        show "a = b"
        proof (rule ccontr)
          assume "a \<noteq> b"
          from differ [OF ua ub this] e show False by simp
        qed
      qed
      then have "distinct (map ((!) ?mp) (filter (\<lambda>i. ?mp ! i \<noteq> None) [0..<length ?mp]))"
        by (simp add: distinct_map)
      then show ?thesis by (simp only: filter_nth_indices [of "\<lambda>v. v \<noteq> None" ?mp])
    qed
    ultimately show ?thesis using o l sfc by simp
  qed
  show ?thesis
  proof (cases "?n \<le> ?m")
    case True
    from part1 [OF True] True show ?thesis
      unfolding fc_def st_def by simp
  next
    case False
    then have lt: "?m < ?n" by simp
    from part2 [OF lt] lt show ?thesis
      unfolding fc_def st_def by simp
  qed
qed

theorem matchToPalette_injective_on_distinct_inventory_witness:
  "distinct (matchToPalette [''#ff0000'', ''#00ff00'']
     (Some [\<lparr>filamentId = ''1'', filamentName = ''Red'', filamentType = ''PLA'', color = ''#ff0000''\<rparr>,
            \<lparr>filamentId = ''2'', filamentName = ''Blue'', filamentType = ''PLA'', color = ''#0000ff''\<rparr>]))
   \<and> set (matchToPalette [''#ff0000'', ''#00ff00'', ''#0000ff'']
     (Some [\<lparr>filamentId = ''1'', filamentName = ''Red'', filamentType = ''PLA'', color = ''#ff0000''\<rparr>,
            \<lparr>filamentId = ''2'', filamentName = ''Blue'', filamentType = ''PLA'', color = ''#0000ff''\<rparr>]))
       = {Some ''#ff0000'', Some ''#0000ff''}
   \<and> length (filter (\<lambda>v. v \<noteq> None)
         (matchedPalette (greedyPass [''#ff0000'', ''#00ff00'', ''#0000ff''] [''#ff0000'', ''#0000ff'']))) = 2"
proof -
  let ?fs = "[\<lparr>filamentId = ''1'', filamentName = ''Red'', filamentType = ''PLA'', color = ''#ff0000''\<rparr>,
            \<lparr>filamentId = ''2'', filamentName = ''Blue'', filamentType = ''PLA'', color = ''#0000ff''\<rparr>]"
  have a: "?fs \<noteq> []" "distinct (map color ?fs)" "\<forall>f\<in>set ?fs. color f \<noteq> []"
    by simp_all
  from matchToPalette_injective_on_distinct_inventory [OF a, of "[''#ff0000'', ''#00ff00'']"]
  have "distinct (matchToPalette [''#ff0000'', ''#00ff00''] (Some ?fs))" by simp
  moreover
  from matchToPalette_injective_on_distinct_inventory [OF a, of "[''#ff0000'', ''#00ff00'', ''#0000ff'']"]
  have "set (matchToPalette [''#ff0000'', ''#00ff00'', ''#0000ff''] (Some ?fs))
          = {Some ''#ff0000'', Some ''#0000ff''}
        \<and> length (filter (\<lambda>v. v \<noteq> None)
              (matchedPalette (greedyPass [''#ff0000'', ''#00ff00'', ''#0000ff''] [''#ff0000'', ''#0000ff'']))) = 2"
    by simp
  ultimately show ?thesis by simp
qed

theorem matchToPalette_duplicate_inventory_color_counterexample:
  "length [''#ff0000'', ''#00ff00'']
     \<le> length [\<lparr>filamentId = ''1'', filamentName = ''Red'', filamentType = ''PLA'', color = ''#ff0000''\<rparr>,
               \<lparr>filamentId = ''2'', filamentName = ''Red'', filamentType = ''PETG'', color = ''#ff0000''\<rparr>]
   \<and> matchToPalette [''#ff0000'', ''#00ff00'']
       (Some [\<lparr>filamentId = ''1'', filamentName = ''Red'', filamentType = ''PLA'', color = ''#ff0000''\<rparr>,
              \<lparr>filamentId = ''2'', filamentName = ''Red'', filamentType = ''PETG'', color = ''#ff0000''\<rparr>])
     = [Some ''#ff0000'', Some ''#ff0000'']
   \<and> \<not> distinct (matchToPalette [''#ff0000'', ''#00ff00'']
       (Some [\<lparr>filamentId = ''1'', filamentName = ''Red'', filamentType = ''PLA'', color = ''#ff0000''\<rparr>,
              \<lparr>filamentId = ''2'', filamentName = ''Red'', filamentType = ''PETG'', color = ''#ff0000''\<rparr>]))"
  by (simp add: matchToPalette_def greedyPass_def allMatches_def example_colors colorDistance_def assignMatch_def
      fillStep_def isFalsy_def upt_rec Let_def)

section \<open>Verification: the mesh generator\<close>

lemma pixelIndex_bound: "j < h \<Longrightarrow> i < w \<Longrightarrow> j * w + i < w * (h::nat)"
proof -
  assume j: "j < h" and i: "i < w"
  have "j * w + i < j * w + w" using i by simp
  also have "\<dots> = Suc j * w" by simp
  also have "\<dots> \<le> h * w" using j by (intro mult_le_mono1) simp
  finally show ?thesis by (simp add: mult.commute)
qed

lemma vertexStep_invariant:
  assumes inv: "vertexInvariant inp bh (j * imageWidth inp + i) st"
    and i: "i < imageWidth inp" and j: "j < imageHeight inp"
  shows "vertexInvariant inp bh (Suc (j * imageWidth inp + i)) (vertexStep inp bh j st i)"
proof -
  let ?w = "imageWidth inp" and ?h = "imageHeight inp"
  let ?p = "j * ?w + i"
  have p: "?p < ?w * ?h" using j i by (rule pixelIndex_bound)
  from inv have lv: "length (vertices st) = 2 * ?p"
    and lb: "length (bottomVertices st) = ?w * ?h" and lt: "length (topVertices st) = ?w * ?h"
    and old: "\<forall>q<?p. bottomVertices st ! q = Some (2 * q) \<and> topVertices st ! q = Some (2 * q + 1)
        \<and> vertices st ! (2 * q) = bottomVertex inp (q div ?w) (q mod ?w)
        \<and> vertices st ! (2 * q + 1) = topVertex inp bh (q div ?w) (q mod ?w)"
    by (simp_all add: vertexInvariant_def)
  have dm: "?p div ?w = j" "?p mod ?w = i" using i by simp_all
  let ?st = "vertexStep inp bh j st i"
  have vs: "vertices ?st = vertices st @ [bottomVertex inp j i, topVertex inp bh j i]"
    and bs: "bottomVertices ?st = (bottomVertices st)[?p := Some (2 * ?p)]"
    and ts: "topVertices ?st = (topVertices st)[?p := Some (2 * ?p + 1)]"
    by (simp_all add: vertexStep_def Let_def lv)
  have "\<forall>q<Suc ?p. bottomVertices ?st ! q = Some (2 * q) \<and> topVertices ?st ! q = Some (2 * q + 1)
        \<and> vertices ?st ! (2 * q) = bottomVertex inp (q div ?w) (q mod ?w)
        \<and> vertices ?st ! (2 * q + 1) = topVertex inp bh (q div ?w) (q mod ?w)"
  proof (intro allI impI)
    fix q
    assume "q < Suc ?p"
    then consider "q < ?p" | "q = ?p" by linarith
    then show "bottomVertices ?st ! q = Some (2 * q) \<and> topVertices ?st ! q = Some (2 * q + 1)
        \<and> vertices ?st ! (2 * q) = bottomVertex inp (q div ?w) (q mod ?w)
        \<and> vertices ?st ! (2 * q + 1) = topVertex inp bh (q div ?w) (q mod ?w)"
    proof cases
      case 1
      then have "2 * q < length (vertices st)" "2 * q + 1 < length (vertices st)"
        using lv by simp_all
      then show ?thesis
        using 1 old unfolding vs bs ts by (simp add: nth_append)
    next
      case 2
      have a: "(vertices st @ [bottomVertex inp j i, topVertex inp bh j i]) ! (2 * ?p)
          = bottomVertex inp j i"
        using lv by (simp add: nth_append)
      have b: "(vertices st @ [bottomVertex inp j i, topVertex inp bh j i]) ! (2 * ?p + 1)
          = topVertex inp bh j i"
        using lv by (simp add: nth_append)
      show ?thesis
        unfolding 2 vs bs ts dm using p lb lt a b by simp
    qed
  qed
  moreover have "length (vertices ?st) = 2 * Suc ?p" unfolding vs using lv by simp
  moreover have "length (bottomVertices ?st) = ?w * ?h" "length (topVertices ?st) = ?w * ?h"
    unfolding bs ts using lb lt by simp_all
  ultimately show ?thesis by (simp add: vertexInvariant_def)
qed

lemma vertexRow_invariant:
  assumes j: "j < imageHeight inp"
  shows "i0 \<le> imageWidth inp \<Longrightarrow> vertexInvariant inp bh (j * imageWidth inp) st \<Longrightarrow>
    vertexInvariant inp bh (j * imageWidth inp + i0) (foldl (vertexStep inp bh j) st [0..<i0])"
proof (induction i0)
  case 0
  then show ?case by simp
next
  case (Suc i0)
  then have "vertexInvariant inp bh (j * imageWidth inp + i0) (foldl (vertexStep inp bh j) st [0..<i0])"
    by simp
  from vertexStep_invariant [OF this _ j] Suc.prems(1) show ?case by simp
qed

lemma vertexRows_invariant:
  "j0 \<le> imageHeight inp \<Longrightarrow> vertexInvariant inp bh 0 st \<Longrightarrow>
   vertexInvariant inp bh (j0 * imageWidth inp)
     (foldl (\<lambda>st j. foldl (vertexStep inp bh j) st [0..<imageWidth inp]) st [0..<j0])"
proof (induction j0)
  case 0
  then show ?case by simp
next
  case (Suc j0)
  then have a: "vertexInvariant inp bh (j0 * imageWidth inp)
     (foldl (\<lambda>st j. foldl (vertexStep inp bh j) st [0..<imageWidth inp]) st [0..<j0])"
    by simp
  have "j0 < imageHeight inp" using Suc.prems(1) by simp
  from vertexRow_invariant [OF this order_refl a] show ?case by (simp add: add.commute)
qed

lemma generateVertices_invariant:
  "vertexInvariant inp bh (imageHeight inp * imageWidth inp) (generateVertices inp bh)"
  unfolding generateVertices_def
  by (rule vertexRows_invariant) (simp_all add: vertexInvariant_def)

lemma slot_vertices:
  assumes "j < imageHeight inp" "i < imageWidth inp"
  shows "slot (bottomVertices (generateVertices inp bh)) (j * imageWidth inp + i)
           = Some (2 * (j * imageWidth inp + i))"
    and "slot (topVertices (generateVertices inp bh)) (j * imageWidth inp + i)
           = Some (2 * (j * imageWidth inp + i) + 1)"
proof -
  let ?w = "imageWidth inp" and ?h = "imageHeight inp"
  have p: "j * ?w + i < ?w * ?h" using assms by (rule pixelIndex_bound)
  then have p': "j * ?w + i < ?h * ?w" by (simp add: mult.commute)
  note inv = generateVertices_invariant [of inp bh, unfolded vertexInvariant_def]
  from inv p p'
  show "slot (bottomVertices (generateVertices inp bh)) (j * ?w + i) = Some (2 * (j * ?w + i))"
    and "slot (topVertices (generateVertices inp bh)) (j * ?w + i) = Some (2 * (j * ?w + i) + 1)"
    by (simp_all add: slot_def)
qed

lemma slot_valid:
  assumes "j < imageHeight inp" "i < imageWidth inp"
  shows "validIndex (2 * (imageWidth inp * imageHeight inp))
           (slot (bottomVertices (generateVertices inp bh)) (j * imageWidth inp + i))"
    and "validIndex (2 * (imageWidth inp * imageHeight inp))
           (slot (topVertices (generateVertices inp bh)) (j * imageWidth inp + i))"
  using pixelIndex_bound [OF assms] by (simp_all add: slot_vertices [OF assms] validIndex_def)

lemma quadFaces_valid:
  assumes "j < imageHeight inp - 1" "i < imageWidth inp - 1"
  shows "\<forall>f\<in>set (quadFaces (imageWidth inp) (generateVertices inp bh) j i).
           validFace (2 * (imageWidth inp * imageHeight inp)) f"
proof -
  have j: "j < imageHeight inp" "j + 1 < imageHeight inp"
    and i: "i < imageWidth inp" "i + 1 < imageWidth inp"
    using assms by simp_all
  note v = slot_valid [OF j(1) i(1), of bh] slot_valid [OF j(1) i(2), of bh]
    slot_valid [OF j(2) i(1), of bh] slot_valid [OF j(2) i(2), of bh]
  from v show ?thesis
    by (simp add: quadFaces_def validFace_def Let_def add.assoc)
qed

lemma frontBackFaces_valid:
  assumes "0 < imageHeight inp" "i < imageWidth inp - 1"
  shows "\<forall>f\<in>set (frontBackFaces (imageWidth inp) (imageHeight inp) (generateVertices inp bh) i).
           validFace (2 * (imageWidth inp * imageHeight inp)) f"
proof -
  have j: "0 < imageHeight inp" "imageHeight inp - 1 < imageHeight inp"
    and i: "i < imageWidth inp" "i + 1 < imageWidth inp"
    using assms by simp_all
  note v = slot_valid [OF j(1) i(1), of bh] slot_valid [OF j(1) i(2), of bh]
    slot_valid [OF j(2) i(1), of bh] slot_valid [OF j(2) i(2), of bh]
  from v show ?thesis
    by (simp add: frontBackFaces_def validFace_def Let_def add.assoc)
qed

lemma leftRightFaces_valid:
  assumes "j < imageHeight inp - 1" "0 < imageWidth inp"
  shows "\<forall>f\<in>set (leftRightFaces (imageWidth inp) (generateVertices inp bh) j).
           validFace (2 * (imageWidth inp * imageHeight inp)) f"
proof -
  have j: "j < imageHeight inp" "j + 1 < imageHeight inp"
    and i: "0 < imageWidth inp" "imageWidth inp - 1 < imageWidth inp"
    using assms by simp_all
  note v = slot_valid [OF j(1) i(1), of bh] slot_valid [OF j(1) i(2), of bh]
    slot_valid [OF j(2) i(1), of bh] slot_valid [OF j(2) i(2), of bh]
  from v show ?thesis
    by (simp add: leftRightFaces_def validFace_def Let_def)
qed

lemma generateFaces_valid:
  assumes "0 < imageWidth inp" "0 < imageHeight inp"
  shows "\<forall>f\<in>set (generateFaces (imageWidth inp) (imageHeight inp) (generateVertices inp bh)).
           validFace (2 * (imageWidth inp * imageHeight inp)) f"
  using assms quadFaces_valid [of _ inp _ bh] frontBackFaces_valid [of inp _ bh]
    leftRightFaces_valid [of _ inp bh]
  by (auto simp: generateFaces_def)

lemma length_concat_const:
  "\<forall>x\<in>set xs. length (f x) = c \<Longrightarrow> length (concat (map f xs)) = c * length xs"
  by (induction xs) simp_all

lemma generateFaces_length:
  "length (generateFaces w h st) = 4 * (w - 1) * (h - 1) + 4 * (w - 1) + 4 * (h - 1)"
proof -
  have q: "length (concat (map (quadFaces w st j) [0..<w - 1])) = 4 * (w - 1)" for j
    by (subst length_concat_const [where c = 4]) (simp_all add: quadFaces_def Let_def)
  have "length (concat (map (\<lambda>j. concat (map (quadFaces w st j) [0..<w - 1])) [0..<h - 1]))
      = 4 * (w - 1) * (h - 1)"
    by (subst length_concat_const [where c = "4 * (w - 1)"]) (use q in simp_all)
  moreover have "length (concat (map (frontBackFaces w h st) [0..<w - 1])) = 4 * (w - 1)"
    by (subst length_concat_const [where c = 4]) (simp_all add: frontBackFaces_def Let_def)
  moreover have "length (concat (map (leftRightFaces w st) [0..<h - 1])) = 4 * (h - 1)"
    by (subst length_concat_const [where c = 4]) (simp_all add: leftRightFaces_def Let_def)
  ultimately show ?thesis by (simp add: generateFaces_def)
qed

lemma serializeFaces_valid:
  "\<forall>f\<in>set fs. validFace (length vs) f \<Longrightarrow>
   \<exists>ts. serializeFaces vs fs = Inr ts \<and> length ts = length fs"
proof (induction fs)
  case Nil
  show ?case by simp
next
  case (Cons f fs)
  then obtain ts where ts: "serializeFaces vs fs = Inr ts" "length ts = length fs" by auto
  obtain i1 i2 i3 where f: "f = (i1, i2, i3)" by (cases f)
  from Cons.prems have "validIndex (length vs) i1" "validIndex (length vs) i2" "validIndex (length vs) i3"
    by (simp_all add: f validFace_def)
  then obtain v1 v2 v3 where "vertexOf vs i1 = Some v1" "vertexOf vs i2 = Some v2" "vertexOf vs i3 = Some v3"
    by (auto simp: validIndex_def vertexOf_def arrayAt_def split: option.splits)
  then have "serializeFace vs f = Inr (faceNormal v1 v2 v3, v1, v2, v3)"
    by (simp add: serializeFace_def f)
  then show ?case using ts by simp
qed

lemma generateStl_returns:
  assumes "arrayLength (numBands inp) = Some n" "0 < imageWidth inp" "0 < imageHeight inp"
  shows "\<exists>ts. generateStl inp =
            Inr \<lparr>triangleCount = of_nat (4 * (imageWidth inp - 1) * (imageHeight inp - 1)
                                        + 4 * (imageWidth inp - 1) + 4 * (imageHeight inp - 1)),
                 triangles = ts\<rparr>
          \<and> length ts = 4 * (imageWidth inp - 1) * (imageHeight inp - 1)
                          + 4 * (imageWidth inp - 1) + 4 * (imageHeight inp - 1)"
proof -
  let ?bh = "bandHeightTable inp n"
  let ?st = "generateVertices inp ?bh"
  let ?fs = "generateFaces (imageWidth inp) (imageHeight inp) ?st"
  have lv: "length (vertices ?st) = 2 * (imageWidth inp * imageHeight inp)"
    using generateVertices_invariant [of inp ?bh] by (simp add: vertexInvariant_def mult.commute)
  have "\<forall>f\<in>set ?fs. validFace (length (vertices ?st)) f"
    unfolding lv using assms(2,3) by (rule generateFaces_valid)
  from serializeFaces_valid [OF this] obtain ts
    where ts: "serializeFaces (vertices ?st) ?fs = Inr ts" "length ts = length ?fs" by blast
  show ?thesis
    using ts assms(1) by (simp add: generateStl_def Let_def generateFaces_length)
qed

text \<open>
  Claim C6. For every band raster of width \<open>W \<ge> 2\<close> and height \<open>H \<ge> 2\<close> (and a band
  count that \<open>new Array\<close> accepts), \<open>generateStl\<close> returns a file of exactly
  \<open>4 (W - 1) (H - 1) + 4 (W - 1) + 4 (H - 1)\<close> triangles, the number it writes as the
  triangle count: four per quad, and four per edge segment on the front and back and on the
  left and right walls.
\<close>

theorem generateStl_triangle_count:
  "2 \<le> imageWidth inp \<Longrightarrow> 2 \<le> imageHeight inp \<Longrightarrow> arrayLength (numBands inp) = Some n \<Longrightarrow>
   \<exists>m. generateStl inp = Inr m
     \<and> length (triangles m) = 4 * (imageWidth inp - 1) * (imageHeight inp - 1)
                               + 4 * (imageWidth inp - 1) + 4 * (imageHeight inp - 1)
     \<and> triangleCount m = of_nat (length (triangles m))"
proof -
  assume w: "2 \<le> imageWidth inp" and h: "2 \<le> imageHeight inp"
    and n: "arrayLength (numBands inp) = Some n"
  from w h have "0 < imageWidth inp" "0 < imageHeight inp" by simp_all
  from generateStl_returns [OF n this] show ?thesis by auto
qed

theorem generateStl_triangle_count_witness:
  "\<exists>m. generateStl example2x2 = Inr m \<and> length (triangles m) = 12"
proof -
  have "2 \<le> imageWidth example2x2" "2 \<le> imageHeight example2x2"
    "arrayLength (numBands example2x2) = Some 2"
    by (simp_all add: example2x2_def arrayLength_def)
  from generateStl_triangle_count [OF this] show ?thesis
    by (auto simp: example2x2_def)
qed

lemma pixelSpacing_by_zero: "\<not> isFinite (pixelSpacing x (Suc 0))"
  by (cases x) (simp_all add: pixelSpacing_def signedInf_def)

text \<open>
  Claim C5, as amended. \<open>generateStl\<close> validates nothing: for a band raster whose width
  or height is 1 (the other being at least 1, the band count valid) it returns a file, of
  \<open>4 (W - 1) + 4 (H - 1)\<close> wall triangles and no top or bottom triangle, and the spacing
  of that axis is the physical size divided by \<open>W - 1 = 0\<close> (or \<open>H - 1 = 0\<close>), which
  is an infinity or NaN.
\<close>

theorem generateStl_accepts_single_row_or_column:
  "imageWidth inp = 1 \<or> imageHeight inp = 1 \<Longrightarrow> 0 < imageWidth inp \<Longrightarrow> 0 < imageHeight inp \<Longrightarrow>
   arrayLength (numBands inp) = Some n \<Longrightarrow>
   (\<exists>m. generateStl inp = Inr m
      \<and> length (triangles m) = 4 * (imageWidth inp - 1) + 4 * (imageHeight inp - 1))
   \<and> (imageWidth inp = 1 \<longrightarrow> \<not> isFinite (pixelSpacing (modelWidth inp) (imageWidth inp)))
   \<and> (imageHeight inp = 1 \<longrightarrow> \<not> isFinite (pixelSpacing (modelDepth inp) (imageHeight inp)))"
proof -
  assume one: "imageWidth inp = 1 \<or> imageHeight inp = 1"
    and w: "0 < imageWidth inp" and h: "0 < imageHeight inp"
    and n: "arrayLength (numBands inp) = Some n"
  from one have z: "4 * (imageWidth inp - 1) * (imageHeight inp - 1) = 0" by auto
  from generateStl_returns [OF n w h] z
  have "\<exists>m. generateStl inp = Inr m
      \<and> length (triangles m) = 4 * (imageWidth inp - 1) + 4 * (imageHeight inp - 1)"
    by auto
  then show ?thesis by (auto simp: pixelSpacing_by_zero)
qed

theorem generateStl_accepts_single_row_or_column_witness:
  "(\<exists>m. generateStl example1x1 = Inr m \<and> length (triangles m) = 0)
   \<and> \<not> isFinite (pixelSpacing (modelWidth example1x1) (imageWidth example1x1))"
proof -
  have "imageWidth example1x1 = 1 \<or> imageHeight example1x1 = 1"
    "0 < imageWidth example1x1" "0 < imageHeight example1x1"
    "arrayLength (numBands example1x1) = Some 2"
    by (simp_all add: example1x1_def arrayLength_def)
  from generateStl_accepts_single_row_or_column [OF this] show ?thesis
    by (auto simp: example1x1_def)
qed

theorem generateStl_single_pixel_counterexample:
  "generateStl example1x1 = Inr \<lparr>triangleCount = 0, triangles = []\<rparr>
   \<and> pixelSpacing (modelWidth example1x1) (imageWidth example1x1) = PInf"
proof -
  have "arrayLength (numBands example1x1) = Some 2"
    "0 < imageWidth example1x1" "0 < imageHeight example1x1"
    by (simp_all add: example1x1_def arrayLength_def)
  from generateStl_returns [OF this]
  have "generateStl example1x1 = Inr \<lparr>triangleCount = 0, triangles = []\<rparr>"
    by (auto simp: example1x1_def)
  moreover have "pixelSpacing (modelWidth example1x1) (imageWidth example1x1) = PInf"
    by (simp add: example1x1_def pixelSpacing_def signedInf_def)
  ultimately show ?thesis by simp
qed

lemma bandHeightsFrom_length: "length (bandHeightsFrom a b k) = k"
  by (induction k arbitrary: a) simp_all

lemma bandHeightTable_length: "length (bandHeightTable inp n) = max n 1"
  by (cases n) (simp_all add: bandHeightTable_def bandHeightsFrom_length)

lemma topVertex_generated:
  assumes "j < imageHeight inp" "i < imageWidth inp"
  shows "vertices (generateVertices inp bh) ! (2 * (j * imageWidth inp + i) + 1) = topVertex inp bh j i"
proof -
  have p: "j * imageWidth inp + i < imageHeight inp * imageWidth inp"
    using pixelIndex_bound [OF assms] by (simp add: mult.commute)
  have dm: "(j * imageWidth inp + i) div imageWidth inp = j" "(j * imageWidth inp + i) mod imageWidth inp = i"
    using assms(2) by simp_all
  from generateVertices_invariant [of inp bh, unfolded vertexInvariant_def] p
  have "vertices (generateVertices inp bh) ! (2 * (j * imageWidth inp + i) + 1)
      = topVertex inp bh ((j * imageWidth inp + i) div imageWidth inp)
          ((j * imageWidth inp + i) mod imageWidth inp)"
    by blast
  then show ?thesis by (simp only: dm)
qed

text \<open>
  Claim C10. For the pixel in column \<open>i\<close> of row \<open>j\<close>, whose band is read at the
  vertically flipped index: when the band has no entry in the height table,
  \<open>generateStl\<close> raises no error and the top vertex of the pixel, vertex
  \<open>2 (j W + i) + 1\<close>, is at \<open>z = 0\<close>. A band at or above the band count (for a band
  count of at least 1; the table always has entry 0), a band that is not an integer
  (whatever the band count), a missing band and NaN have no entry.
\<close>

theorem generateStl_missing_height_is_zero:
  "arrayLength (numBands inp) = Some n \<Longrightarrow> j < imageHeight inp \<Longrightarrow> i < imageWidth inp \<Longrightarrow>
   band = arrayAt (bandMap inp) ((imageHeight inp - 1 - j) * imageWidth inp + i) \<Longrightarrow>
   (lookupHeight (bandHeightTable inp n) band = None \<longrightarrow>
      (\<exists>m. generateStl inp = Inr m)
      \<and> vertices (generateVertices inp (bandHeightTable inp n)) ! (2 * (j * imageWidth inp + i) + 1)
          = (jsMul (Num (real i)) (pixelSpacing (modelWidth inp) (imageWidth inp)),
             jsMul (Num (real j)) (pixelSpacing (modelDepth inp) (imageHeight inp)),
             Num 0))
   \<and> (\<forall>x. band = Some (Num x) \<and> (1 \<le> n \<and> real n \<le> x \<or> x \<noteq> real_of_int \<lfloor>x\<rfloor>) \<longrightarrow>
          lookupHeight (bandHeightTable inp n) band = None)
   \<and> (band = None \<or> band = Some NaN \<longrightarrow> lookupHeight (bandHeightTable inp n) band = None)"
proof (intro conjI impI allI)
  assume n: "arrayLength (numBands inp) = Some n" and j: "j < imageHeight inp" and i: "i < imageWidth inp"
    and band: "band = arrayAt (bandMap inp) ((imageHeight inp - 1 - j) * imageWidth inp + i)"
  {
    assume none: "lookupHeight (bandHeightTable inp n) band = None"
    from j i have "0 < imageWidth inp" "0 < imageHeight inp" by simp_all
    from generateStl_returns [OF n this] show "\<exists>m. generateStl inp = Inr m" by blast
    show "vertices (generateVertices inp (bandHeightTable inp n)) ! (2 * (j * imageWidth inp + i) + 1)
          = (jsMul (Num (real i)) (pixelSpacing (modelWidth inp) (imageWidth inp)),
             jsMul (Num (real j)) (pixelSpacing (modelDepth inp) (imageHeight inp)),
             Num 0)"
      unfolding topVertex_generated [OF j i]
      using none by (simp add: topVertex_def Let_def band)
  }
  {
    fix x
    assume a: "band = Some (Num x) \<and> (1 \<le> n \<and> real n \<le> x \<or> x \<noteq> real_of_int \<lfloor>x\<rfloor>)"
    then have b: "band = Some (Num x)" by simp
    show "lookupHeight (bandHeightTable inp n) band = None"
    proof (cases "x = real_of_int \<lfloor>x\<rfloor>")
      case True
      with a have n1: "1 \<le> n" and nx: "real n \<le> x" by simp_all
      from n1 have len: "length (bandHeightTable inp n) = n" by (simp add: bandHeightTable_length)
      from nx True have "n \<le> nat \<lfloor>x\<rfloor>" by linarith
      then show ?thesis using b len by (simp add: lookupHeight_def)
    next
      case False
      then show ?thesis using b by (simp add: lookupHeight_def)
    qed
  }
  {
    assume "band = None \<or> band = Some NaN"
    then show "lookupHeight (bandHeightTable inp n) band = None"
      by (auto simp: lookupHeight_def)
  }
qed

theorem generateStl_missing_height_is_zero_witness:
  "(\<exists>m. generateStl example2x2 = Inr m)
   \<and> snd (snd (vertices (generateVertices example2x2 (bandHeightTable example2x2 2)) ! 1)) = Num 0"
proof -
  have h: "arrayLength (numBands example2x2) = Some 2" "0 < imageHeight example2x2"
    "0 < imageWidth example2x2"
    "Some (Num 7) = arrayAt (bandMap example2x2)
        ((imageHeight example2x2 - 1 - 0) * imageWidth example2x2 + 0)"
    by (simp_all add: example2x2_def arrayLength_def arrayAt_def)
  note t = generateStl_missing_height_is_zero [OF h]
  from t have "lookupHeight (bandHeightTable example2x2 2) (Some (Num 7)) = None"
    by simp
  with t show ?thesis by simp
qed

section \<open>Verification: face normals\<close>

lemma double_minus_less: "y < x \<Longrightarrow> x < x + x - (y::real)"
  by linarith

lemma overflowThreshold_large: "(2::real) ^ 1023 < overflowThreshold"
proof -
  have e: "(1024::nat) = 1023 + 1" by simp
  have "(2::real) ^ 1024 = 2 ^ (1023 + 1)" by (subst e) (rule refl)
  also have "\<dots> = 2 ^ 1023 * 2" by (simp only: power_add power_one_right)
  finally have a: "(2::real) ^ 1024 = 2 ^ 1023 + 2 ^ 1023" by (simp only: mult_2_right)
  have b: "(2::real) ^ 970 < 2 ^ 1023"
    by (rule power_strict_increasing) simp_all
  show ?thesis
    unfolding overflowThreshold_def a using b by (rule double_minus_less)
qed

lemma fromReal_Num: "\<bar>x\<bar> < overflowThreshold \<Longrightarrow> fromReal x = Num x"
  by (auto simp: fromReal_def)

lemma abs_mult_bound: "\<bar>a\<bar> \<le> A \<Longrightarrow> \<bar>b\<bar> \<le> B \<Longrightarrow> \<bar>a * b\<bar> \<le> A * (B::real)"
proof -
  assume a: "\<bar>a\<bar> \<le> A" and b: "\<bar>b\<bar> \<le> B"
  have "\<bar>a * b\<bar> = \<bar>a\<bar> * \<bar>b\<bar>" by (rule abs_mult)
  also have "\<dots> \<le> A * B" using a b by (intro mult_mono) auto
  finally show ?thesis .
qed

lemma abs_diff_bound: "\<bar>a\<bar> \<le> A \<Longrightarrow> \<bar>b\<bar> \<le> B \<Longrightarrow> \<bar>a - b\<bar> \<le> A + (B::real)"
  by linarith

lemma jsSub_Num: "\<bar>a - b\<bar> < overflowThreshold \<Longrightarrow> jsSub (Num a) (Num b) = Num (a - b)"
  by (simp add: jsSub_def fromReal_Num)

lemma jsMul_Num: "\<bar>a * b\<bar> < overflowThreshold \<Longrightarrow> jsMul (Num a) (Num b) = Num (a * b)"
  by (simp add: fromReal_Num)

lemma jsAdd_Num: "\<bar>a + b\<bar> < overflowThreshold \<Longrightarrow> jsAdd (Num a) (Num b) = Num (a + b)"
  by (simp add: fromReal_Num)

lemma jsSub_Num_le:
  "\<bar>a - b\<bar> \<le> M \<Longrightarrow> M < overflowThreshold \<Longrightarrow> jsSub (Num a) (Num b) = Num (a - b)"
  by (rule jsSub_Num) linarith

lemma jsMul_Num_le:
  "\<bar>a * b\<bar> \<le> M \<Longrightarrow> M < overflowThreshold \<Longrightarrow> jsMul (Num a) (Num b) = Num (a * b)"
  by (rule jsMul_Num) linarith

text \<open>The cross product of vertices bounded by \<open>B\<close> is finite and bounded by \<open>8 B\<^sup>2\<close>.\<close>

lemma cross_component:
  assumes B: "1 \<le> B" and T: "192 * B ^ 4 < overflowThreshold"
    and c: "\<bar>p1\<bar> \<le> B" "\<bar>p2\<bar> \<le> B" "\<bar>p3\<bar> \<le> B" "\<bar>q1\<bar> \<le> B" "\<bar>q2\<bar> \<le> B" "\<bar>q3\<bar> \<le> B"
  shows "jsSub (jsMul (jsSub (Num p2) (Num p1)) (jsSub (Num q3) (Num q1)))
               (jsMul (jsSub (Num q2) (Num q1)) (jsSub (Num p3) (Num p1)))
         = Num ((p2 - p1) * (q3 - q1) - (q2 - q1) * (p3 - p1))"
    and "\<bar>(p2 - p1) * (q3 - q1) - (q2 - q1) * (p3 - p1)\<bar> \<le> 8 * B ^ 2"
proof -
  have B2: "B \<le> B ^ 2" using B by (simp add: power2_eq_square)
  have B4: "B ^ 2 \<le> B ^ 4" using B by (intro power_increasing) auto
  have t2: "2 * B < overflowThreshold" "4 * B ^ 2 < overflowThreshold" "8 * B ^ 2 < overflowThreshold"
    using B B2 B4 T by linarith+
  have d: "\<bar>p2 - p1\<bar> \<le> 2 * B" "\<bar>q3 - q1\<bar> \<le> 2 * B" "\<bar>q2 - q1\<bar> \<le> 2 * B" "\<bar>p3 - p1\<bar> \<le> 2 * B"
    using c by linarith+
  have m1: "\<bar>(p2 - p1) * (q3 - q1)\<bar> \<le> 4 * B ^ 2"
    using abs_mult_bound [OF d(1) d(2)] by (simp add: power2_eq_square)
  have m2: "\<bar>(q2 - q1) * (p3 - p1)\<bar> \<le> 4 * B ^ 2"
    using abs_mult_bound [OF d(3) d(4)] by (simp add: power2_eq_square)
  show n: "\<bar>(p2 - p1) * (q3 - q1) - (q2 - q1) * (p3 - p1)\<bar> \<le> 8 * B ^ 2"
    using m1 m2 by linarith
  have s1: "jsSub (Num p2) (Num p1) = Num (p2 - p1)" "jsSub (Num q3) (Num q1) = Num (q3 - q1)"
     "jsSub (Num q2) (Num q1) = Num (q2 - q1)" "jsSub (Num p3) (Num p1) = Num (p3 - p1)"
    by (rule jsSub_Num_le [OF d(1) t2(1)], rule jsSub_Num_le [OF d(2) t2(1)],
        rule jsSub_Num_le [OF d(3) t2(1)], rule jsSub_Num_le [OF d(4) t2(1)])
  have s2: "jsMul (Num (p2 - p1)) (Num (q3 - q1)) = Num ((p2 - p1) * (q3 - q1))"
    "jsMul (Num (q2 - q1)) (Num (p3 - p1)) = Num ((q2 - q1) * (p3 - p1))"
    by (rule jsMul_Num_le [OF m1 t2(2)], rule jsMul_Num_le [OF m2 t2(2)])
  show "jsSub (jsMul (jsSub (Num p2) (Num p1)) (jsSub (Num q3) (Num q1)))
               (jsMul (jsSub (Num q2) (Num q1)) (jsSub (Num p3) (Num p1)))
         = Num ((p2 - p1) * (q3 - q1) - (q2 - q1) * (p3 - p1))"
    unfolding s1 s2 by (rule jsSub_Num_le [OF n t2(3)])
qed

lemma normalize_bounded:
  assumes B: "1 \<le> B" and T: "192 * B ^ 4 < overflowThreshold"
    and n: "\<bar>n0\<bar> \<le> 8 * B ^ 2" "\<bar>n1\<bar> \<le> 8 * B ^ 2" "\<bar>n2\<bar> \<le> 8 * B ^ 2"
  shows "(let len = jsOr (jsSqrt (jsAdd (jsAdd (jsMul (Num n0) (Num n0)) (jsMul (Num n1) (Num n1)))
                                   (jsMul (Num n2) (Num n2)))) (Num 1)
          in (jsDiv (Num n0) len, jsDiv (Num n1) len, jsDiv (Num n2) len))
         = (if n0 = 0 \<and> n1 = 0 \<and> n2 = 0 then (Num 0, Num 0, Num 0)
            else (Num (n0 / sqrt (n0\<^sup>2 + n1\<^sup>2 + n2\<^sup>2)), Num (n1 / sqrt (n0\<^sup>2 + n1\<^sup>2 + n2\<^sup>2)),
                  Num (n2 / sqrt (n0\<^sup>2 + n1\<^sup>2 + n2\<^sup>2))))"
proof -
  have sq: "\<bar>x * x\<bar> \<le> 64 * B ^ 4" if "\<bar>x\<bar> \<le> 8 * B ^ 2" for x :: real
  proof -
    have "\<bar>x * x\<bar> \<le> (8 * B ^ 2) * (8 * B ^ 2)" using that that by (rule abs_mult_bound)
    also have "\<dots> = 64 * B ^ 4" by (simp add: power2_eq_square power4_eq_xxxx)
    finally show ?thesis .
  qed
  have B4: "0 \<le> B ^ 4" using B by simp
  note q = sq [OF n(1)] sq [OF n(2)] sq [OF n(3)]
  have p: "0 \<le> n0 * n0" "0 \<le> n1 * n1" "0 \<le> n2 * n2" by simp_all
  define s where "s = n0 * n0 + n1 * n1 + n2 * n2"
  have s0: "0 \<le> s" unfolding s_def using p by linarith
  have m: "jsMul (Num n0) (Num n0) = Num (n0 * n0)" "jsMul (Num n1) (Num n1) = Num (n1 * n1)"
    "jsMul (Num n2) (Num n2) = Num (n2 * n2)"
  proof -
    have t64: "64 * B ^ 4 < overflowThreshold" using T B4 by linarith
    show "jsMul (Num n0) (Num n0) = Num (n0 * n0)" by (rule jsMul_Num_le [OF q(1) t64])
    show "jsMul (Num n1) (Num n1) = Num (n1 * n1)" by (rule jsMul_Num_le [OF q(2) t64])
    show "jsMul (Num n2) (Num n2) = Num (n2 * n2)" by (rule jsMul_Num_le [OF q(3) t64])
  qed
  have a1: "jsAdd (Num (n0 * n0)) (Num (n1 * n1)) = Num (n0 * n0 + n1 * n1)"
    using q T B4 p by (intro jsAdd_Num) linarith
  have a2: "jsAdd (Num (n0 * n0 + n1 * n1)) (Num (n2 * n2)) = Num s"
    unfolding s_def using q T B4 p by (intro jsAdd_Num) linarith
  have root: "jsSqrt (Num s) = Num (sqrt s)" using s0 by simp
  have s_sq: "s = n0\<^sup>2 + n1\<^sup>2 + n2\<^sup>2" by (simp add: s_def power2_eq_square)
  have thr1: "1 < overflowThreshold" using T B B4
  proof -
    have "1 \<le> B ^ 4" using B by (rule one_le_power)
    then show ?thesis using T by linarith
  qed
  show ?thesis
  proof (cases "n0 = 0 \<and> n1 = 0 \<and> n2 = 0")
    case True
    then have "s = 0" by (simp add: s_def)
    then show ?thesis
      unfolding m a1 a2 root using True thr1 by (simp add: jsOr_def fromReal_Num)
  next
    case False
    then have "s \<noteq> 0" unfolding s_sq by (simp add: sum_power2_eq_zero_iff add_nonneg_eq_0_iff)
    with s0 have spos: "0 < s" by simp
    then have rpos: "0 < sqrt s" by simp
    have le: "\<bar>x\<bar> \<le> sqrt s" if "x * x \<le> s" for x
    proof -
      have "sqrt (x * x) \<le> sqrt s" using that by (rule real_sqrt_le_mono)
      then show ?thesis by simp
    qed
    have d: "jsDiv (Num x) (Num (sqrt s)) = Num (x / sqrt s)" if "x * x \<le> s" for x
    proof -
      have "\<bar>x / sqrt s\<bar> \<le> 1" using le [OF that] rpos by (simp add: field_simps)
      then have "\<bar>x / sqrt s\<bar> < overflowThreshold" using thr1 by linarith
      then show ?thesis using rpos by (simp add: fromReal_Num)
    qed
    have c: "n0 * n0 \<le> s" "n1 * n1 \<le> s" "n2 * n2 \<le> s"
      unfolding s_def using p by linarith+
    have "jsOr (Num (sqrt s)) (Num 1) = Num (sqrt s)" using rpos by (simp add: jsOr_def)
    then show ?thesis
      unfolding m a1 a2 root using False d [OF c(1)] d [OF c(2)] d [OF c(3)]
      by (simp add: s_sq Let_def)
  qed
qed

lemma coordinateBound_ok: "1 \<le> coordinateBound" "192 * coordinateBound ^ 4 < overflowThreshold"
proof -
  show "1 \<le> coordinateBound"
    unfolding coordinateBound_def by (rule one_le_power) simp
  have e1: "(250::nat) * 4 = 1000" and e2: "(8::nat) + 1000 = 1008" by simp_all
  have "coordinateBound ^ 4 = (2::real) ^ (250 * 4)"
    unfolding coordinateBound_def by (rule power_mult [symmetric])
  then have b4: "coordinateBound ^ 4 = (2::real) ^ 1000" by (subst (asm) e1)
  have p: "(0::real) \<le> 2 ^ 1000" by (rule zero_le_power) simp
  have "(192::real) \<le> 2 ^ 8" by simp
  then have "192 * (2::real) ^ 1000 \<le> 2 ^ 8 * 2 ^ 1000" using p by (rule mult_right_mono)
  also have "(2::real) ^ 8 * 2 ^ 1000 = 2 ^ (8 + 1000)" by (rule power_add [symmetric])
  also have "\<dots> = 2 ^ 1008" by (subst e2) (rule refl)
  also have "\<dots> \<le> 2 ^ 1023" by (rule power_increasing) simp_all
  also have "\<dots> < overflowThreshold" by (rule overflowThreshold_large)
  finally show "192 * coordinateBound ^ 4 < overflowThreshold" unfolding b4 .
qed

lemma boundedVertexD:
  assumes "boundedVertex B v"
  shows "\<exists>x y z. v = (Num x, Num y, Num z) \<and> \<bar>x\<bar> \<le> B \<and> \<bar>y\<bar> \<le> B \<and> \<bar>z\<bar> \<le> B"
proof -
  obtain a b c where v: "v = (a, b, c)" by (cases v)
  show ?thesis
    using assms unfolding v
    by (cases a; cases b; cases c) (simp_all add: boundedVertex_def)
qed

lemma diff_nonneg_le: "0 \<le> y \<Longrightarrow> x - y \<le> (x::real)"
  by simp

lemma crossProduct_bounded:
  assumes "boundedVertex coordinateBound v1" "boundedVertex coordinateBound v2"
    "boundedVertex coordinateBound v3"
  shows "\<exists>n0 n1 n2. crossProduct v1 v2 v3 = (Num n0, Num n1, Num n2)
      \<and> \<bar>n0\<bar> \<le> 8 * coordinateBound ^ 2 \<and> \<bar>n1\<bar> \<le> 8 * coordinateBound ^ 2
      \<and> \<bar>n2\<bar> \<le> 8 * coordinateBound ^ 2"
proof -
  from boundedVertexD [OF assms(1)] obtain x1 y1 z1 where v1: "v1 = (Num x1, Num y1, Num z1)"
    and b1: "\<bar>x1\<bar> \<le> coordinateBound" "\<bar>y1\<bar> \<le> coordinateBound" "\<bar>z1\<bar> \<le> coordinateBound"
    by blast
  from boundedVertexD [OF assms(2)] obtain x2 y2 z2 where v2: "v2 = (Num x2, Num y2, Num z2)"
    and b2: "\<bar>x2\<bar> \<le> coordinateBound" "\<bar>y2\<bar> \<le> coordinateBound" "\<bar>z2\<bar> \<le> coordinateBound"
    by blast
  from boundedVertexD [OF assms(3)] obtain x3 y3 z3 where v3: "v3 = (Num x3, Num y3, Num z3)"
    and b3: "\<bar>x3\<bar> \<le> coordinateBound" "\<bar>y3\<bar> \<le> coordinateBound" "\<bar>z3\<bar> \<le> coordinateBound"
    by blast
  note c0 = cross_component [OF coordinateBound_ok b1(2) b2(2) b3(2) b1(3) b2(3) b3(3)]
  note c1 = cross_component [OF coordinateBound_ok b1(3) b2(3) b3(3) b1(1) b2(1) b3(1)]
  note c2 = cross_component [OF coordinateBound_ok b1(1) b2(1) b3(1) b1(2) b2(2) b3(2)]
  have "crossProduct v1 v2 v3 =
      (Num ((y2 - y1) * (z3 - z1) - (z2 - z1) * (y3 - y1)),
       Num ((z2 - z1) * (x3 - x1) - (x2 - x1) * (z3 - z1)),
       Num ((x2 - x1) * (y3 - y1) - (y2 - y1) * (x3 - x1)))"
    unfolding crossProduct_def v1 v2 v3 prod.case Let_def
    by (simp only: c0(1) c1(1) c2(1))
  then show ?thesis using c0(2) c1(2) c2(2) by blast
qed

text \<open>
  Claim C8, as amended. For every triangle whose vertex coordinates are finite and at most
  \<open>2^250\<close> in magnitude, the three components of the normal are finite numbers, and when
  the cross product of the edge vectors is zero, the length 1 is substituted and the normal
  is \<open>(0, 0, 0)\<close>. Finite coordinates alone are not enough: a cross product that
  overflows to an infinity has an infinite length, which \<open>|| 1\<close> does not replace, and
  the quotient of the two infinities is NaN (the counterexample below).
\<close>

theorem faceNormal_finite_on_bounded_vertices:
  "boundedVertex coordinateBound v1 \<Longrightarrow> boundedVertex coordinateBound v2 \<Longrightarrow>
   boundedVertex coordinateBound v3 \<Longrightarrow>
   (\<exists>a b c. faceNormal v1 v2 v3 = (Num a, Num b, Num c))
   \<and> (crossProduct v1 v2 v3 = (Num 0, Num 0, Num 0) \<longrightarrow>
        faceNormal v1 v2 v3 = (Num 0, Num 0, Num 0))"
proof -
  assume "boundedVertex coordinateBound v1" "boundedVertex coordinateBound v2"
    "boundedVertex coordinateBound v3"
  from crossProduct_bounded [OF this] obtain n0 n1 n2
    where cp: "crossProduct v1 v2 v3 = (Num n0, Num n1, Num n2)"
      and n: "\<bar>n0\<bar> \<le> 8 * coordinateBound ^ 2" "\<bar>n1\<bar> \<le> 8 * coordinateBound ^ 2"
        "\<bar>n2\<bar> \<le> 8 * coordinateBound ^ 2"
    by blast
  have fn: "faceNormal v1 v2 v3 =
      (if n0 = 0 \<and> n1 = 0 \<and> n2 = 0 then (Num 0, Num 0, Num 0)
       else (Num (n0 / sqrt (n0\<^sup>2 + n1\<^sup>2 + n2\<^sup>2)), Num (n1 / sqrt (n0\<^sup>2 + n1\<^sup>2 + n2\<^sup>2)),
             Num (n2 / sqrt (n0\<^sup>2 + n1\<^sup>2 + n2\<^sup>2))))"
    unfolding faceNormal_def cp prod.case
    by (rule normalize_bounded [OF coordinateBound_ok n])
  show ?thesis
    unfolding fn cp by auto
qed

theorem faceNormal_finite_on_bounded_vertices_witness:
  "faceNormal (Num 0, Num 0, Num 0) (Num 1, Num 0, Num 0) (Num 1, Num 0, Num 0)
     = (Num 0, Num 0, Num 0)"
proof -
  have one: "\<bar>1::real\<bar> \<le> coordinateBound" "\<bar>0::real\<bar> \<le> coordinateBound"
    using coordinateBound_ok(1) by simp_all
  have b: "boundedVertex coordinateBound (Num 0, Num 0, Num 0)"
    "boundedVertex coordinateBound (Num 1, Num 0, Num 0)"
    using one by (simp_all add: boundedVertex_def)
  have "(1::real) \<le> 2 ^ 1023" by (rule one_le_power) simp
  then have "1 < overflowThreshold" using overflowThreshold_large by (rule le_less_trans)
  then have thr1: "\<bar>x\<bar> \<le> 1 \<Longrightarrow> fromReal x = Num x" for x
    by (intro fromReal_Num) linarith
  have cp: "crossProduct (Num 0, Num 0, Num 0) (Num 1, Num 0, Num 0) (Num 1, Num 0, Num 0)
      = (Num 0, Num 0, Num 0)"
    by (simp add: crossProduct_def jsSub_def thr1 Let_def)
  from faceNormal_finite_on_bounded_vertices [OF b(1) b(2) b(2)] cp show ?thesis by blast
qed

lemma faceNormal_overflow:
  assumes "0 < c" "c < overflowThreshold" "overflowThreshold \<le> c * c"
  shows "faceNormal (Num 0, Num 0, Num 0) (Num c, Num 0, Num 0) (Num 0, Num c, Num 0)
           = (Num 0, Num 0, NaN)"
proof -
  have t: "0 < overflowThreshold" using assms by linarith
  have f0: "fromReal 0 = Num 0" using t by (simp add: fromReal_def)
  have fc: "fromReal c = Num c" using assms by (simp add: fromReal_def)
  have fcc: "fromReal (c * c) = PInf" using assms by (simp add: fromReal_def)
  have "crossProduct (Num 0, Num 0, Num 0) (Num c, Num 0, Num 0) (Num 0, Num c, Num 0)
      = (Num 0, Num 0, PInf)"
    by (simp add: crossProduct_def jsSub_def f0 fc fcc Let_def)
  then show ?thesis
    by (simp add: faceNormal_def f0 jsOr_def signedInf_def Let_def)
qed

theorem faceNormal_overflow_counterexample:
  "isFinite (Num (2 ^ 600)) \<and>
   faceNormal (Num 0, Num 0, Num 0) (Num (2 ^ 600), Num 0, Num 0) (Num 0, Num (2 ^ 600), Num 0)
     = (Num 0, Num 0, NaN)"
proof -
  have pos: "(0::real) < 2 ^ 600" by (rule zero_less_power) simp
  have "(2::real) ^ 600 \<le> 2 ^ 1023" by (rule power_increasing) simp_all
  then have lt: "(2::real) ^ 600 < overflowThreshold" using overflowThreshold_large by (rule le_less_trans)
  have e: "(600::nat) + 600 = 1200" by simp
  have "(2::real) ^ 600 * 2 ^ 600 = 2 ^ (600 + 600)" by (rule power_add [symmetric])
  then have sq: "(2::real) ^ 600 * 2 ^ 600 = 2 ^ 1200" by (subst (asm) e)
  have p970: "(0::real) \<le> 2 ^ 970" by (rule zero_le_power) simp
  have "overflowThreshold \<le> (2::real) ^ 1024"
    unfolding overflowThreshold_def using p970 by (rule diff_nonneg_le)
  also have "\<dots> \<le> 2 ^ 1200" by (rule power_increasing) simp_all
  finally have ge: "overflowThreshold \<le> (2::real) ^ 600 * 2 ^ 600" unfolding sq .
  have "faceNormal (Num 0, Num 0, Num 0) (Num (2 ^ 600), Num 0, Num 0) (Num 0, Num (2 ^ 600), Num 0)
     = (Num 0, Num 0, NaN)"
    using pos lt ge by (rule faceNormal_overflow)
  moreover have "isFinite (Num (2 ^ 600))" by (rule isFinite.simps(1) [THEN iffD2]) (rule TrueI)
  ultimately show ?thesis by (rule conjI [rotated])
qed

end
